theory Spec2Isabelle
  imports Complex_Main
begin

section \<open>Data model (types.ts, constants.ts)\<close>

text \<open>
  JavaScript numbers that hold grid indices, cell values, offsets and extents are
  modelled as unbounded integers. A nested array is a nested list; reading an index
  that is negative or past the end gives \<open>undefined\<close>, modelled as \<open>None\<close>.
  Field names that would hide a variable or a constant of the logic carry a prefix or
  suffix: \<open>x, y, z\<close> of a block are \<open>block_x, block_y, block_z\<close>, \<open>x, y\<close> of an
  offset are \<open>off_x, off_y\<close>, and \<open>front, top, side\<close> of the views are
  \<open>frontView, topView, sideView\<close>.
\<close>

abbreviation GRID_SIZE :: int where
  "GRID_SIZE \<equiv> 8"

type_synonym PolyCube = "int list list list"

type_synonym OrthographicGridState = "int list list"

record BlockCoordinates =
  block_x :: int
  block_y :: int
  block_z :: int

record ViewOffsets =
  off_x :: int
  off_y :: int

record Dimensions =
  width :: int
  height :: int
  depth :: int

record OrthographicViews =
  frontView :: OrthographicGridState
  topView :: OrthographicGridState
  sideView :: OrthographicGridState
  frontOffsets :: "ViewOffsets option"
  topOffsets :: "ViewOffsets option"
  sideOffsets :: "ViewOffsets option"

datatype ViewType = View_front | View_top | View_side

datatype Level = LEVEL_1 | LEVEL_2 | LEVEL_3

subsection \<open>Array access\<close>

definition elemAt :: "'a list \<Rightarrow> int \<Rightarrow> 'a option" where
  "elemAt xs i = (if 0 \<le> i \<and> i < int (length xs) then Some (xs ! nat i) else None)"

text \<open>\<open>polyCube[x] && polyCube[x][y] && polyCube[x][y][z] === 1\<close>\<close>

definition isBlock :: "PolyCube \<Rightarrow> int \<Rightarrow> int \<Rightarrow> int \<Rightarrow> bool" where
  "isBlock polyCube x y z =
     (case elemAt polyCube x of
        None \<Rightarrow> False
      | Some plane \<Rightarrow>
          (case elemAt plane y of
             None \<Rightarrow> False
           | Some line \<Rightarrow> elemAt line z = Some 1))"

text \<open>\<open>grid[r] && grid[r][c] === 1\<close>\<close>

definition isFilled :: "OrthographicGridState \<Rightarrow> int \<Rightarrow> int \<Rightarrow> bool" where
  "isFilled grid r c =
     (case elemAt grid r of None \<Rightarrow> False | Some line \<Rightarrow> elemAt line c = Some 1)"

text \<open>
  \<open>grid[r][c] = v\<close> and \<open>cube[x][y][z] = v\<close>. Every such assignment in the source is
  either guarded by an explicit range test or made at an index that a preceding scan
  has shown to be in range, so the update never has to extend an array.
\<close>

definition set2 :: "'a list list \<Rightarrow> int \<Rightarrow> int \<Rightarrow> 'a \<Rightarrow> 'a list list" where
  "set2 grid r c v = grid[nat r := (grid ! nat r)[nat c := v]]"

definition set3 :: "'a list list list \<Rightarrow> int \<Rightarrow> int \<Rightarrow> int \<Rightarrow> 'a \<Rightarrow> 'a list list list" where
  "set3 cube x y z v = cube[nat x := set2 (cube ! nat x) y z v]"

text \<open>The all-zero solid and the all-zero canvas of the grid size.\<close>

abbreviation emptyPolyCube :: PolyCube where
  "emptyPolyCube \<equiv> replicate 8 (replicate 8 (replicate 8 0))"

abbreviation emptyCanvas :: OrthographicGridState where
  "emptyCanvas \<equiv> replicate 8 (replicate 8 0)"

text \<open>
  The index triples visited by
  \<open>for (x = 0; x < GRID_SIZE; x++) for (y ...) for (z ...)\<close>, in visiting order.
\<close>

definition gridCells :: "(int \<times> int \<times> int) list" where
  "gridCells =
     concat (map (\<lambda>x. concat (map (\<lambda>y. map (\<lambda>z. (x, y, z)) [0..GRID_SIZE - 1])
                                     [0..GRID_SIZE - 1]))
                 [0..GRID_SIZE - 1])"

text \<open>The occupied cells that the triple scan of a polyCube visits, in visiting order.\<close>

definition activeCells :: "PolyCube \<Rightarrow> (int \<times> int \<times> int) list" where
  "activeCells polyCube = filter (\<lambda>(x, y, z). isBlock polyCube x y z) gridCells"

text \<open>\<open>for (r = 0; r < GRID_SIZE; r++) for (c ...)\<close>\<close>

definition gridCells2 :: "(int \<times> int) list" where
  "gridCells2 = concat (map (\<lambda>r. map (\<lambda>c. (r, c)) [0..GRID_SIZE - 1]) [0..GRID_SIZE - 1])"

section \<open>Projection calculator\<close>

definition createEmptyGrid :: "nat \<Rightarrow> nat \<Rightarrow> OrthographicGridState" where
  "createEmptyGrid rows cols = replicate rows (replicate cols 0)"

record DimScan =
  minX :: int
  maxX :: int
  minY :: int
  maxY :: int
  minZ :: int
  maxZ :: int

definition calculateDimensions :: "PolyCube \<Rightarrow> Dimensions" where
  "calculateDimensions polyCube =
     (let s = fold (\<lambda>(x, y, z) s.
                 if isBlock polyCube x y z
                 then \<lparr> minX = min (minX s) x, maxX = max (maxX s) x,
                        minY = min (minY s) y, maxY = max (maxY s) y,
                        minZ = min (minZ s) z, maxZ = max (maxZ s) z \<rparr>
                 else s)
               gridCells
               \<lparr> minX = GRID_SIZE, maxX = -1, minY = GRID_SIZE, maxY = -1,
                 minZ = GRID_SIZE, maxZ = -1 \<rparr>
      in if maxX s = -1 then \<lparr> width = 0, height = 0, depth = 0 \<rparr>
         else \<lparr> width = maxX s - minX s + 1,
                height = maxY s - minY s + 1,
                depth = maxZ s - minZ s + 1 \<rparr>)"

text \<open>
  One pass of the projection loop body for an occupied voxel: the three canvases are
  updated in place, each under its own range guard.
\<close>

definition projectStep ::
  "int \<Rightarrow> int \<Rightarrow> int \<Rightarrow> int \<Rightarrow> int \<Rightarrow> int \<Rightarrow> int \<times> int \<times> int \<Rightarrow>
   OrthographicGridState \<times> OrthographicGridState \<times> OrthographicGridState \<Rightarrow>
   OrthographicGridState \<times> OrthographicGridState \<times> OrthographicGridState" where
  "projectStep offsetXFront offsetYFront offsetXTop offsetYTop offsetXSide offsetYSide =
     (\<lambda>(x, y, z) (fv, tv, sv).
        let frontRow = GRID_SIZE - 1 - (y + offsetYFront);
            frontCol = x + offsetXFront;
            fv' = (if frontRow \<ge> 0 \<and> frontRow < GRID_SIZE \<and> frontCol \<ge> 0 \<and> frontCol < GRID_SIZE
                   then set2 fv frontRow frontCol 1 else fv);
            topRow = x + offsetYTop;
            topCol = z + offsetXTop;
            tv' = (if topRow \<ge> 0 \<and> topRow < GRID_SIZE \<and> topCol \<ge> 0 \<and> topCol < GRID_SIZE
                   then set2 tv topRow topCol 1 else tv);
            sideRow = GRID_SIZE - 1 - (y + offsetYSide);
            sideCol = z + offsetXSide;
            sv' = (if sideRow \<ge> 0 \<and> sideRow < GRID_SIZE \<and> sideCol \<ge> 0 \<and> sideCol < GRID_SIZE
                   then set2 sv sideRow sideCol 1 else sv)
        in (fv', tv', sv'))"

definition calculateOrthographicProjections :: "PolyCube \<Rightarrow> Dimensions \<Rightarrow> OrthographicViews" where
  "calculateOrthographicProjections polyCube dimensions =
     (if width dimensions = 0 \<or> height dimensions = 0 \<or> depth dimensions = 0
      then \<lparr> frontView = createEmptyGrid (nat GRID_SIZE) (nat GRID_SIZE),
             topView = createEmptyGrid (nat GRID_SIZE) (nat GRID_SIZE),
             sideView = createEmptyGrid (nat GRID_SIZE) (nat GRID_SIZE),
             frontOffsets = Some \<lparr> off_x = 0, off_y = 0 \<rparr>,
             topOffsets = Some \<lparr> off_x = 0, off_y = 0 \<rparr>,
             sideOffsets = Some \<lparr> off_x = 0, off_y = 0 \<rparr> \<rparr>
      else
        let offsetXFront = (GRID_SIZE - width dimensions) div 2;
            offsetYFront = (GRID_SIZE - height dimensions) div 2;
            offsetXTop = (GRID_SIZE - depth dimensions) div 2;
            offsetYTop = (GRID_SIZE - width dimensions) div 2;
            offsetXSide = (GRID_SIZE - depth dimensions) div 2;
            offsetYSide = (GRID_SIZE - height dimensions) div 2;
            (fv, tv, sv) =
              fold (\<lambda>(x, y, z) views.
                      if isBlock polyCube x y z
                      then projectStep offsetXFront offsetYFront offsetXTop offsetYTop
                             offsetXSide offsetYSide (x, y, z) views
                      else views)
                   gridCells
                   (createEmptyGrid (nat GRID_SIZE) (nat GRID_SIZE),
                    createEmptyGrid (nat GRID_SIZE) (nat GRID_SIZE),
                    createEmptyGrid (nat GRID_SIZE) (nat GRID_SIZE))
        in \<lparr> frontView = fv, topView = tv, sideView = sv,
             frontOffsets = Some \<lparr> off_x = offsetXFront, off_y = offsetYFront \<rparr>,
             topOffsets = Some \<lparr> off_x = offsetXTop, off_y = offsetYTop \<rparr>,
             sideOffsets = Some \<lparr> off_x = offsetXSide, off_y = offsetYSide \<rparr> \<rparr>)"

text \<open>
  The per-view test in the \<open>switch\<close> of \<open>find3DBlocksFor2DCell\<close>: does the voxel
  \<open>(x, y, z)\<close> lie on the line of sight of canvas cell \<open>(row, col)\<close>?
\<close>

fun contributes :: "ViewType \<Rightarrow> int \<Rightarrow> int \<Rightarrow> ViewOffsets \<Rightarrow> int \<times> int \<times> int \<Rightarrow> bool" where
  "contributes View_front row col viewOffsets (x, y, z) =
     (let targetFrontX = col - off_x viewOffsets;
          targetFrontY = GRID_SIZE - 1 - row - off_y viewOffsets
      in x = targetFrontX \<and> y = targetFrontY)"
| "contributes View_top row col viewOffsets (x, y, z) =
     (let targetTopX = row - off_y viewOffsets;
          targetTopZ = col - off_x viewOffsets
      in x = targetTopX \<and> z = targetTopZ)"
| "contributes View_side row col viewOffsets (x, y, z) =
     (let targetSideZ = col - off_x viewOffsets;
          targetSideY = GRID_SIZE - 1 - row - off_y viewOffsets
      in z = targetSideZ \<and> y = targetSideY)"

definition find3DBlocksFor2DCell ::
  "PolyCube \<Rightarrow> ViewType \<Rightarrow> int \<Rightarrow> int \<Rightarrow> ViewOffsets \<Rightarrow> Dimensions \<Rightarrow> BlockCoordinates list" where
  "find3DBlocksFor2DCell polyCube viewType row col viewOffsets dimensions =
     (let w = width dimensions; h = height dimensions; d = depth dimensions;
          relativeCol = col - off_x viewOffsets;
          relativeRow = row - off_y viewOffsets
      in fold (\<lambda>(x, y, z) contributingBlocks.
                 if isBlock polyCube x y z \<and> contributes viewType row col viewOffsets (x, y, z)
                 then contributingBlocks @ [\<lparr> block_x = x, block_y = y, block_z = z \<rparr>]
                 else contributingBlocks)
              gridCells [])"

text \<open>
  The forward placement of a voxel on the canvas of a view, as computed inside
  \<open>calculateOrthographicProjections\<close> (\<open>frontRow\<close>/\<open>frontCol\<close>, \<open>topRow\<close>/\<open>topCol\<close>,
  \<open>sideRow\<close>/\<open>sideCol\<close>), as a pair (row, column).
\<close>

fun forwardCell :: "ViewType \<Rightarrow> ViewOffsets \<Rightarrow> BlockCoordinates \<Rightarrow> int \<times> int" where
  "forwardCell View_front offs b = (GRID_SIZE - 1 - (block_y b + off_y offs), block_x b + off_x offs)"
| "forwardCell View_top offs b = (block_x b + off_y offs, block_z b + off_x offs)"
| "forwardCell View_side offs b = (GRID_SIZE - 1 - (block_y b + off_y offs), block_z b + off_x offs)"

fun viewGrid :: "OrthographicViews \<Rightarrow> ViewType \<Rightarrow> OrthographicGridState" where
  "viewGrid views View_front = frontView views"
| "viewGrid views View_top = topView views"
| "viewGrid views View_side = sideView views"

fun viewOffsetsOf :: "OrthographicViews \<Rightarrow> ViewType \<Rightarrow> ViewOffsets option" where
  "viewOffsetsOf views View_front = frontOffsets views"
| "viewOffsetsOf views View_top = topOffsets views"
| "viewOffsetsOf views View_side = sideOffsets views"

section \<open>Bounds normalisation\<close>

text \<open>
  \<open>normalizePolyCube\<close>: one scan collects the occupied cells and the per-axis minima;
  a fresh \<open>GRID_SIZE\<close>-cubed container of zeros then receives every collected cell
  moved by the minima. A collected coordinate is at least the minimum of its axis and
  below \<open>GRID_SIZE\<close>, so each assignment hits an existing cell.
\<close>

definition normalizePolyCube :: "PolyCube \<Rightarrow> PolyCube" where
  "normalizePolyCube polyCube =
     (let (blocks, minX, minY, minZ) =
            fold (\<lambda>(x, y, z) (blocks, minX, minY, minZ).
                    if isBlock polyCube x y z
                    then (blocks @ [\<lparr> block_x = x, block_y = y, block_z = z \<rparr>],
                          min minX x, min minY y, min minZ z)
                    else (blocks, minX, minY, minZ))
                 gridCells ([], GRID_SIZE, GRID_SIZE, GRID_SIZE);
          normalizedPolyCube =
            replicate (nat GRID_SIZE) (replicate (nat GRID_SIZE) (replicate (nat GRID_SIZE) 0))
      in fold (\<lambda>block normalizedPolyCube.
                 let newX = block_x block - minX;
                     newY = block_y block - minY;
                     newZ = block_z block - minZ
                 in set3 normalizedPolyCube newX newY newZ 1)
              blocks normalizedPolyCube)"

record Dimensions2D =
  width2D :: int
  height2D :: int

record Normalized2D =
  normalizedGrid :: OrthographicGridState
  dimensions2D :: Dimensions2D

text \<open>
  \<open>normalize2DGrid\<close>: the same scan over a canvas, but the container that receives the
  moved cells is allocated with \<open>height = maxR - minR + 1\<close> rows of
  \<open>width = maxC - minC + 1\<close> cells; an unfilled canvas gives the empty array.
\<close>

definition normalize2DGrid :: "OrthographicGridState \<Rightarrow> Normalized2D" where
  "normalize2DGrid grid =
     (let (filledCells, minR, maxR, minC, maxC) =
            fold (\<lambda>(r, c) (filledCells, minR, maxR, minC, maxC).
                    if isFilled grid r c
                    then (filledCells @ [(r, c)], min minR r, max maxR r, min minC c, max maxC c)
                    else (filledCells, minR, maxR, minC, maxC))
                 gridCells2 ([], GRID_SIZE, -1, GRID_SIZE, -1)
      in if length filledCells = 0
         then \<lparr> normalizedGrid = [], dimensions2D = \<lparr> width2D = 0, height2D = 0 \<rparr> \<rparr>
         else
           let w = maxC - minC + 1;
               h = maxR - minR + 1;
               normalizedGrid = replicate (nat h) (replicate (nat w) 0)
           in \<lparr> normalizedGrid =
                  fold (\<lambda>(r, c) normalizedGrid.
                          let newR = r - minR; newC = c - minC
                          in set2 normalizedGrid newR newC 1)
                       filledCells normalizedGrid,
                dimensions2D = \<lparr> width2D = w, height2D = h \<rparr> \<rparr>)"

text \<open>The filled cells that the double scan of a canvas visits, in visiting order.\<close>

definition filledCellsOf :: "OrthographicGridState \<Rightarrow> (int \<times> int) list" where
  "filledCellsOf grid = filter (\<lambda>(r, c). isFilled grid r c) gridCells2"

text \<open>The extents of a rectangular canvas and of a box-shaped container.\<close>

definition extents2 :: "'a list list \<Rightarrow> nat \<Rightarrow> nat \<Rightarrow> bool" where
  "extents2 grid h w \<longleftrightarrow> length grid = h \<and> (\<forall>line \<in> set grid. length line = w)"

definition extents3 :: "'a list list list \<Rightarrow> nat \<Rightarrow> nat \<Rightarrow> nat \<Rightarrow> bool" where
  "extents3 cube a b c \<longleftrightarrow> length cube = a \<and> (\<forall>plane \<in> set cube. extents2 plane b c)"

section \<open>Shape generator\<close>

text \<open>
  Randomness is an injected source. Every call of \<open>Math.random()\<close> in the generator
  stands inside an expression \<open>Math.floor(Math.random() * n)\<close> with an integer \<open>n\<close>,
  and \<open>rnd i n\<close> is the value of that expression when the call is the \<open>i\<close>-th of the
  invocation; a counter threaded through the code says which call comes next. The
  binary64 product and its rounding are thus left to the source and not recomputed
  here. The multipliers of the generator are \<open>max - min + 1\<close> (4 or 6),
  \<open>GRID_SIZE / 2\<close> (4) and \<open>min(length, 5)\<close> (1 to 5); a source is valid when, for
  every multiplier from 1 to 6, the value lies in \<open>0 .. n - 1\<close>, as it does for a
  \<open>Math.random()\<close> in \<open>[0, 1)\<close>.
\<close>

type_synonym RandomSource = "nat \<Rightarrow> int \<Rightarrow> int"

definition validRandom :: "RandomSource \<Rightarrow> bool" where
  "validRandom rnd \<longleftrightarrow> (\<forall>i n. 1 \<le> n \<and> n \<le> 6 \<longrightarrow> 0 \<le> rnd i n \<and> rnd i n < n)"

definition MAX_REGEN_ATTEMPTS :: nat where
  "MAX_REGEN_ATTEMPTS = 50"

text \<open>The pair \<open>(min, max)\<close> of a level.\<close>

fun BLOCK_COUNTS_BY_LEVEL :: "Level \<Rightarrow> int \<times> int" where
  "BLOCK_COUNTS_BY_LEVEL LEVEL_1 = (4, 7)"
| "BLOCK_COUNTS_BY_LEVEL LEVEL_2 = (7, 10)"
| "BLOCK_COUNTS_BY_LEVEL LEVEL_3 = (10, 15)"

text \<open>The six offsets \<open>(dx, dy, dz)\<close>, in the order of the source.\<close>

definition neighbors :: "(int \<times> int \<times> int) list" where
  "neighbors = [(1, 0, 0), (-1, 0, 0), (0, 1, 0), (0, -1, 0), (0, 0, 1), (0, 0, -1)]"

text \<open>
  The candidate scan of one growth step. The string key \<open>"x,y,z"\<close> determines the
  integer triple and is determined by it, so the keys of \<open>tempBlockMap\<close> and the
  members of \<open>potentialPointsSet\<close> are the coordinates themselves.
\<close>

definition collectPotentialPoints ::
  "(BlockCoordinates \<rightharpoonup> bool) \<Rightarrow> BlockCoordinates list \<Rightarrow> BlockCoordinates list" where
  "collectPotentialPoints tempBlockMap existingBlocks =
     fst (fold (\<lambda>block.
                  fold (\<lambda>(dx, dy, dz) (potentialPoints, potentialPointsSet).
                          let nx = block_x block + dx;
                              ny = block_y block + dy;
                              nz = block_z block + dz;
                              pointKey = \<lparr> block_x = nx, block_y = ny, block_z = nz \<rparr>
                          in if nx \<ge> 0 \<and> nx < GRID_SIZE \<and>
                                ny \<ge> 0 \<and> ny < GRID_SIZE \<and>
                                nz \<ge> 0 \<and> nz < GRID_SIZE \<and>
                                tempBlockMap pointKey = None \<and>
                                pointKey \<notin> potentialPointsSet
                             then (potentialPoints @ [pointKey], insert pointKey potentialPointsSet)
                             else (potentialPoints, potentialPointsSet))
                       neighbors)
               existingBlocks ([], {}))"

text \<open>
  The growth loop \<open>for (count = 1; count < targetBlocks; count++)\<close>. It returns the
  blocks placed and the position reached in the random source. The candidates are
  sorted by descending \<open>y\<close> with a stable sort; an index outside the sorted list reads
  \<open>undefined\<close> and leaves the loop.
\<close>

function growShape ::
  "RandomSource \<Rightarrow> int \<Rightarrow> int \<Rightarrow> nat \<Rightarrow> (BlockCoordinates \<rightharpoonup> bool) \<Rightarrow>
   BlockCoordinates list \<Rightarrow> BlockCoordinates list \<times> nat" where
  "growShape rnd targetBlocks count i tempBlockMap existingBlocks =
     (if count < targetBlocks
      then
        let potentialPoints = collectPotentialPoints tempBlockMap existingBlocks
        in if length potentialPoints = 0 then (existingBlocks, i)
           else
             let sorted = sort_key (\<lambda>b. - block_y b) potentialPoints;
                 pick = rnd i (min (int (length sorted)) 5)
             in case elemAt sorted pick of
                  None \<Rightarrow> (existingBlocks, i + 1)
                | Some nextBlock \<Rightarrow>
                    growShape rnd targetBlocks (count + 1) (i + 1)
                      (tempBlockMap(nextBlock \<mapsto> True)) (existingBlocks @ [nextBlock])
      else (existingBlocks, i))"
  by pat_completeness auto
termination
  by (relation "measure (\<lambda>(rnd, targetBlocks, count, i, tempBlockMap, existingBlocks).
                           nat (targetBlocks - count))") auto

text \<open>
  One pass of the body of \<open>while (attempts < MAX_REGEN_ATTEMPTS)\<close>, for the target
  fixed before the loop: \<open>Some\<close> solid when the pass returns, \<open>None\<close> when it ends in
  \<open>continue\<close>; with the position reached in the random source.
\<close>

definition attemptShape :: "RandomSource \<Rightarrow> int \<Rightarrow> int \<Rightarrow> nat \<Rightarrow> PolyCube option \<times> nat" where
  "attemptShape rnd minBlocks targetBlocks i =
     (let startX = rnd i (GRID_SIZE div 2);
          startY = 0;
          startZ = rnd (i + 1) (GRID_SIZE div 2);
          startKey = \<lparr> block_x = startX, block_y = startY, block_z = startZ \<rparr>;
          (existingBlocks, i') =
             growShape rnd targetBlocks 1 (i + 2) [startKey \<mapsto> True] [startKey]
      in if int (length existingBlocks) < minBlocks then (None, i')
         else
           let currentPolyCube =
                 fold (\<lambda>block polyCube.
                         set3 polyCube (block_x block) (block_y block) (block_z block) 1)
                      existingBlocks
                      (replicate (nat GRID_SIZE)
                         (replicate (nat GRID_SIZE) (replicate (nat GRID_SIZE) 0)));
               normalizedPolyCube = normalizePolyCube currentPolyCube;
               dimensions = calculateDimensions normalizedPolyCube
           in if width dimensions > GRID_SIZE \<or> height dimensions > GRID_SIZE \<or>
                 depth dimensions > GRID_SIZE \<or> width dimensions = 0
              then (None, i')
              else (Some normalizedPolyCube, i'))"

function regenLoop :: "RandomSource \<Rightarrow> int \<Rightarrow> int \<Rightarrow> nat \<Rightarrow> nat \<Rightarrow> PolyCube option" where
  "regenLoop rnd minBlocks targetBlocks attempts i =
     (if attempts < MAX_REGEN_ATTEMPTS
      then (case attemptShape rnd minBlocks targetBlocks i of
              (Some polyCube, i') \<Rightarrow> Some polyCube
            | (None, i') \<Rightarrow> regenLoop rnd minBlocks targetBlocks (attempts + 1) i')
      else None)"
  by pat_completeness auto
termination
  by (relation "measure (\<lambda>(rnd, minBlocks, targetBlocks, attempts, i).
                           MAX_REGEN_ATTEMPTS - attempts)") auto

text \<open>
  \<open>generateContiguousShape\<close>: the target is drawn once, by the first call of the
  source, before the loop is entered; \<open>None\<close> is the \<open>null\<close> of the source.
\<close>

definition generateContiguousShape :: "RandomSource \<Rightarrow> Level \<Rightarrow> PolyCube option" where
  "generateContiguousShape rnd level =
     (let (minBlocks, maxBlocks) = BLOCK_COUNTS_BY_LEVEL level;
          targetBlocks = rnd 0 (maxBlocks - minBlocks + 1) + minBlocks
      in regenLoop rnd minBlocks targetBlocks 0 1)"

text \<open>
  For comparison only: the retry loop as the specification words it, where every pass
  begins by drawing its own target in \<open>[min, max]\<close> and then runs the same pass body.
\<close>

function regenLoop_repick :: "RandomSource \<Rightarrow> int \<Rightarrow> int \<Rightarrow> nat \<Rightarrow> nat \<Rightarrow> PolyCube option" where
  "regenLoop_repick rnd minBlocks maxBlocks attempts i =
     (if attempts < MAX_REGEN_ATTEMPTS
      then
        let targetBlocks = rnd i (maxBlocks - minBlocks + 1) + minBlocks
        in (case attemptShape rnd minBlocks targetBlocks (i + 1) of
              (Some polyCube, i') \<Rightarrow> Some polyCube
            | (None, i') \<Rightarrow> regenLoop_repick rnd minBlocks maxBlocks (attempts + 1) i')
      else None)"
  by pat_completeness auto
termination
  by (relation "measure (\<lambda>(rnd, minBlocks, maxBlocks, attempts, i).
                           MAX_REGEN_ATTEMPTS - attempts)") auto

definition generateContiguousShape_repick :: "RandomSource \<Rightarrow> Level \<Rightarrow> PolyCube option" where
  "generateContiguousShape_repick rnd level =
     (let (minBlocks, maxBlocks) = BLOCK_COUNTS_BY_LEVEL level
      in regenLoop_repick rnd minBlocks maxBlocks 0 0)"

text \<open>
  Six-connectedness of the occupied cells: two cells are adjacent when they differ by
  exactly 1 along exactly one axis, and any two occupied cells are joined by a chain
  of adjacent occupied cells.
\<close>

definition adjacent :: "int \<times> int \<times> int \<Rightarrow> int \<times> int \<times> int \<Rightarrow> bool" where
  "adjacent p q \<longleftrightarrow>
     (\<bar>fst p - fst q\<bar> = 1 \<and> fst (snd p) = fst (snd q) \<and> snd (snd p) = snd (snd q)) \<or>
     (fst p = fst q \<and> \<bar>fst (snd p) - fst (snd q)\<bar> = 1 \<and> snd (snd p) = snd (snd q)) \<or>
     (fst p = fst q \<and> fst (snd p) = fst (snd q) \<and> \<bar>snd (snd p) - snd (snd q)\<bar> = 1)"

definition adjOn :: "(int \<times> int \<times> int) set \<Rightarrow> ((int \<times> int \<times> int) \<times> (int \<times> int \<times> int)) set" where
  "adjOn S = {(a, b). a \<in> S \<and> b \<in> S \<and> adjacent a b}"

definition sixConnected :: "PolyCube \<Rightarrow> bool" where
  "sixConnected polyCube \<longleftrightarrow>
     (\<forall>p \<in> set (activeCells polyCube). \<forall>q \<in> set (activeCells polyCube).
        (p, q) \<in> (adjOn (set (activeCells polyCube)))\<^sup>*)"

text \<open>Vocabulary for reasoning about the growth: a block as a cell, inside the grid, moved.\<close>

definition cellOf :: "BlockCoordinates \<Rightarrow> int \<times> int \<times> int" where
  "cellOf b = (block_x b, block_y b, block_z b)"

definition inGrid :: "BlockCoordinates \<Rightarrow> bool" where
  "inGrid b \<longleftrightarrow> 0 \<le> block_x b \<and> block_x b < GRID_SIZE \<and>
                0 \<le> block_y b \<and> block_y b < GRID_SIZE \<and>
                0 \<le> block_z b \<and> block_z b < GRID_SIZE"

definition moveBy :: "BlockCoordinates \<Rightarrow> int \<times> int \<times> int \<Rightarrow> BlockCoordinates" where
  "moveBy b d = \<lparr> block_x = block_x b + fst d, block_y = block_y b + fst (snd d),
                  block_z = block_z b + snd (snd d) \<rparr>"

text \<open>
  The state of a growth: at least one block, no block twice, every block inside the
  grid, and every block joined to the first one by a chain of adjacent blocks.
\<close>

definition grown :: "BlockCoordinates list \<Rightarrow> bool" where
  "grown bs \<longleftrightarrow>
     bs \<noteq> [] \<and> distinct bs \<and> (\<forall>b \<in> set bs. inGrid b) \<and>
     (\<forall>b \<in> set bs. (cellOf (hd bs), cellOf b) \<in> (adjOn (cellOf ` set bs))\<^sup>*)"

section \<open>Isometric renderer: face visibility\<close>

text \<open>
  JavaScript doubles are idealised as real numbers. The components of a face normal
  are the integers 0, 1 and -1; they index the neighbour cell as integers and enter
  the rotation as reals.
\<close>

record 'a Point3D =
  pt_x :: 'a
  pt_y :: 'a
  pt_z :: 'a

type_synonym Rotated3DPoint = "real Point3D"

record FaceDefinition =
  corners :: "nat list"
  normal :: "int Point3D"

definition VIEW_DIRECTION_VECTOR :: Rotated3DPoint where
  "VIEW_DIRECTION_VECTOR = \<lparr> pt_x = 0.5, pt_y = 0.5, pt_z = 0.5 \<rparr>"

definition UNIT_CUBE_FACES :: "FaceDefinition list" where
  "UNIT_CUBE_FACES =
     [ \<lparr> corners = [2, 4, 7, 6], normal = \<lparr> pt_x = 0, pt_y = 1, pt_z = 0 \<rparr> \<rparr>,
       \<lparr> corners = [0, 3, 5, 1], normal = \<lparr> pt_x = 0, pt_y = -1, pt_z = 0 \<rparr> \<rparr>,
       \<lparr> corners = [3, 6, 7, 5], normal = \<lparr> pt_x = 0, pt_y = 0, pt_z = 1 \<rparr> \<rparr>,
       \<lparr> corners = [0, 1, 4, 2], normal = \<lparr> pt_x = 0, pt_y = 0, pt_z = -1 \<rparr> \<rparr>,
       \<lparr> corners = [1, 5, 7, 4], normal = \<lparr> pt_x = 1, pt_y = 0, pt_z = 0 \<rparr> \<rparr>,
       \<lparr> corners = [0, 2, 6, 3], normal = \<lparr> pt_x = -1, pt_y = 0, pt_z = 0 \<rparr> \<rparr> ]"

definition applyRotation :: "real \<Rightarrow> real \<Rightarrow> real \<Rightarrow> real \<Rightarrow> real \<Rightarrow> Rotated3DPoint" where
  "applyRotation x y z rotationX rotationY =
     (let cosY = cos rotationY;
          sinY = sin rotationY;
          x' = x * cosY + z * sinY;
          z' = - x * sinY + z * cosY;
          y' = y;
          cosX = cos rotationX;
          sinX = sin rotationX;
          finalY = y' * cosX - z' * sinX;
          finalZ = y' * sinX + z' * cosX;
          finalX = x'
      in \<lparr> pt_x = finalX, pt_y = finalY, pt_z = finalZ \<rparr>)"

definition rotateVector :: "real \<Rightarrow> real \<Rightarrow> real \<Rightarrow> real \<Rightarrow> real \<Rightarrow> Rotated3DPoint" where
  "rotateVector vx vy vz rotationX rotationY = applyRotation vx vy vz rotationX rotationY"

text \<open>Step 1 of the loop body of \<open>drawIsometricBlockFaces\<close>: the neighbour test.\<close>

definition isNaturallyExposed :: "PolyCube \<Rightarrow> int \<Rightarrow> int \<Rightarrow> int \<Rightarrow> FaceDefinition \<Rightarrow> bool" where
  "isNaturallyExposed polyCube originalBlockX originalBlockY originalBlockZ face =
     (let neighborX = originalBlockX + pt_x (normal face);
          neighborY = originalBlockY + pt_y (normal face);
          neighborZ = originalBlockZ + pt_z (normal face)
      in neighborX < 0 \<or> neighborX \<ge> GRID_SIZE \<or>
         neighborY < 0 \<or> neighborY \<ge> GRID_SIZE \<or>
         neighborZ < 0 \<or> neighborZ \<ge> GRID_SIZE \<or>
         \<not> isBlock polyCube neighborX neighborY neighborZ)"

text \<open>Step 2: the sign of the rotated normal against the view direction.\<close>

definition isFacingCamera :: "FaceDefinition \<Rightarrow> real \<Rightarrow> real \<Rightarrow> bool" where
  "isFacingCamera face rotationX rotationY =
     (let rotatedNormal = rotateVector (of_int (pt_x (normal face))) (of_int (pt_y (normal face)))
                            (of_int (pt_z (normal face))) rotationX rotationY;
          dotProduct = pt_x rotatedNormal * pt_x VIEW_DIRECTION_VECTOR +
                       pt_y rotatedNormal * pt_y VIEW_DIRECTION_VECTOR +
                       pt_z rotatedNormal * pt_z VIEW_DIRECTION_VECTOR
      in dotProduct > 0)"

text \<open>
  The faces of one block for which \<open>drawIsometricFace\<close> is called, in calling order.
  A face that fails the neighbour test is skipped by \<open>continue\<close> before its normal is
  rotated. The corner points and colours handed to the canvas are left out.
\<close>

definition drawIsometricBlockFaces ::
  "PolyCube \<Rightarrow> int \<Rightarrow> int \<Rightarrow> int \<Rightarrow> real \<Rightarrow> real \<Rightarrow> FaceDefinition list" where
  "drawIsometricBlockFaces polyCube originalBlockX originalBlockY originalBlockZ rotationX rotationY =
     fold (\<lambda>face drawn.
             if \<not> isNaturallyExposed polyCube originalBlockX originalBlockY originalBlockZ face
             then drawn
             else if isFacingCamera face rotationX rotationY then drawn @ [face]
             else drawn)
          UNIT_CUBE_FACES []"

section \<open>Basic facts about array access and the scan\<close>

lemma set_gridCells:
  "set gridCells = {(x, y, z). 0 \<le> x \<and> x < 8 \<and> 0 \<le> y \<and> y < 8 \<and> 0 \<le> z \<and> z < 8}"
  by (force simp: gridCells_def)

lemma distinct_line: "distinct (map (\<lambda>z. (x, y, z)) [0..(7::int)])"
  by (simp add: distinct_map inj_on_def)

lemma distinct_plane:
  "distinct (concat (map (\<lambda>y. map (\<lambda>z. (x, y, z)) [0..(7::int)]) [0..(7::int)]))"
proof (rule distinct_concat)
  have "inj_on (\<lambda>y. map (\<lambda>z. (x, y, z)) [0..(7::int)]) (set [0..7])"
    by (rule inj_onI) (simp add: upto_rec1)
  then show "distinct (map (\<lambda>y. map (\<lambda>z. (x, y, z)) [0..(7::int)]) [0..7])"
    by (simp add: distinct_map)
qed (auto simp: distinct_map inj_on_def)

lemma distinct_gridCells: "distinct gridCells"
  unfolding gridCells_def
proof (rule distinct_concat)
  let ?f = "\<lambda>x. concat (map (\<lambda>y. map (\<lambda>z. (x, y, z)) [0..GRID_SIZE - 1]) [0..GRID_SIZE - 1])"
  have "inj_on ?f (set [0..7])"
    by (rule inj_onI) (simp add: upto_rec1)
  then show "distinct (map ?f [0..GRID_SIZE - 1])"
    by (simp add: distinct_map)
next
  fix ys
  assume "ys \<in> set (map (\<lambda>x. concat (map (\<lambda>y. map (\<lambda>z. (x, y, z)) [0..GRID_SIZE - 1])
                                   [0..GRID_SIZE - 1])) [0..GRID_SIZE - 1])"
  then show "distinct ys" using distinct_plane by auto
qed auto

lemma activeCells_iff:
  "(x, y, z) \<in> set (activeCells polyCube) \<longleftrightarrow>
     0 \<le> x \<and> x < 8 \<and> 0 \<le> y \<and> y < 8 \<and> 0 \<le> z \<and> z < 8 \<and> isBlock polyCube x y z"
  by (auto simp: activeCells_def set_gridCells)

section \<open>Projection: the scan and its inverse\<close>

lemma fold_cond_append:
  "fold (\<lambda>p acc. if Q p then acc @ [f p] else acc) ps acc0 = acc0 @ map f (filter Q ps)"
  by (induction ps arbitrary: acc0) auto

lemma find3D_filter:
  "find3DBlocksFor2DCell polyCube viewType row col viewOffsets dimensions =
     map (\<lambda>(x, y, z). \<lparr> block_x = x, block_y = y, block_z = z \<rparr>)
       (filter (\<lambda>(x, y, z). isBlock polyCube x y z \<and> contributes viewType row col viewOffsets (x, y, z))
          gridCells)"
proof -
  have "(\<lambda>(x, y, z) contributingBlocks.
                 if isBlock polyCube x y z \<and> contributes viewType row col viewOffsets (x, y, z)
                 then contributingBlocks @ [\<lparr> block_x = x, block_y = y, block_z = z \<rparr>]
                 else contributingBlocks) = 
      (\<lambda>p acc. if (\<lambda>(x, y, z). isBlock polyCube x y z \<and> contributes viewType row col viewOffsets (x, y, z)) p
          then acc @ [(\<lambda>(x, y, z). \<lparr> block_x = x, block_y = y, block_z = z \<rparr>) p] else acc)"
    by (auto simp: fun_eq_iff)
  then show ?thesis
    unfolding find3DBlocksFor2DCell_def Let_def
    by (simp only: fold_cond_append append_Nil)
qed

lemma elemAt_update:
  "elemAt (xs[n := v]) i = (if 0 \<le> i \<and> nat i = n \<and> n < length xs then Some v else elemAt xs i)"
  by (auto simp: elemAt_def nth_list_update)

lemma elemAt_replicate:
  "elemAt (replicate n v) i = (if 0 \<le> i \<and> i < int n then Some v else None)"
  by (auto simp: elemAt_def nat_less_iff)

lemma elemAt_Some_iff:
  "elemAt xs i = Some v \<longleftrightarrow> 0 \<le> i \<and> i < int (length xs) \<and> xs ! nat i = v"
  by (auto simp: elemAt_def)

lemma isFilled_empty: "\<not> isFilled (createEmptyGrid m n) r c"
  by (simp add: isFilled_def createEmptyGrid_def elemAt_replicate)

lemma isFilled_set2:
  assumes "0 \<le> i" "0 \<le> j"
  shows "isFilled (set2 g i j 1) r c \<longleftrightarrow>
         isFilled g r c \<or> (r = i \<and> c = j \<and> i < int (length g) \<and> j < int (length (g ! nat i)))"
proof (cases "r = i \<and> i < int (length g)")
  case True
  then have "elemAt (set2 g i j 1) r = Some ((g ! nat i)[nat j := 1])"
    using assms by (simp add: set2_def elemAt_update nat_less_iff)
  moreover have "elemAt g r = Some (g ! nat i)"
    using True assms by (simp add: elemAt_def)
  ultimately show ?thesis
    using True assms by (auto simp: isFilled_def elemAt_update)
next
  case False
  then have "elemAt (set2 g i j 1) r = elemAt g r"
    using assms by (auto simp: set2_def elemAt_update)
  then show ?thesis
    using False by (auto simp: isFilled_def elemAt_def)
qed

lemma projection_origin:
  assumes "fold (\<lambda>(x, y, z) views.
                   if isBlock polyCube x y z
                   then projectStep oxf oyf oxt oyt oxs oys (x, y, z) views
                   else views) ps (fv0, tv0, sv0) = (fv, tv, sv)"
  shows "(isFilled fv r c \<longrightarrow> isFilled fv0 r c \<or>
            (\<exists>(x, y, z) \<in> set ps. isBlock polyCube x y z \<and> r = GRID_SIZE - 1 - (y + oyf) \<and> c = x + oxf))
       \<and> (isFilled tv r c \<longrightarrow> isFilled tv0 r c \<or>
            (\<exists>(x, y, z) \<in> set ps. isBlock polyCube x y z \<and> r = x + oyt \<and> c = z + oxt))
       \<and> (isFilled sv r c \<longrightarrow> isFilled sv0 r c \<or>
            (\<exists>(x, y, z) \<in> set ps. isBlock polyCube x y z \<and> r = GRID_SIZE - 1 - (y + oys) \<and> c = z + oxs))"
  using assms
proof (induction ps arbitrary: fv0 tv0 sv0)
  case Nil
  then show ?case by simp
next
  case (Cons p ps)
  obtain x y z where p: "p = (x, y, z)" by (cases p) auto
  show ?case
  proof (cases "isBlock polyCube x y z")
    case False
    with Cons.prems p have "fold (\<lambda>(x, y, z) views.
                   if isBlock polyCube x y z
                   then projectStep oxf oyf oxt oyt oxs oys (x, y, z) views
                   else views) ps (fv0, tv0, sv0) = (fv, tv, sv)" by simp
    from Cons.IH[OF this] show ?thesis by auto
  next
    case True
    obtain fv1 tv1 sv1 where st: "projectStep oxf oyf oxt oyt oxs oys (x, y, z) (fv0, tv0, sv0) = (fv1, tv1, sv1)"
      by (cases "projectStep oxf oyf oxt oyt oxs oys (x, y, z) (fv0, tv0, sv0)") auto
    with Cons.prems p True have "fold (\<lambda>(x, y, z) views.
                   if isBlock polyCube x y z
                   then projectStep oxf oyf oxt oyt oxs oys (x, y, z) views
                   else views) ps (fv1, tv1, sv1) = (fv, tv, sv)" by simp
    note ih = Cons.IH[OF this]
    have f1: "isFilled fv1 r c \<Longrightarrow> isFilled fv0 r c \<or> (r = GRID_SIZE - 1 - (y + oyf) \<and> c = x + oxf)"
      using st by (auto simp: projectStep_def Let_def isFilled_set2 split: if_splits)
    have t1: "isFilled tv1 r c \<Longrightarrow> isFilled tv0 r c \<or> (r = x + oyt \<and> c = z + oxt)"
      using st by (auto simp: projectStep_def Let_def isFilled_set2 split: if_splits)
    have s1: "isFilled sv1 r c \<Longrightarrow> isFilled sv0 r c \<or> (r = GRID_SIZE - 1 - (y + oys) \<and> c = z + oxs)"
      using st by (auto simp: projectStep_def Let_def isFilled_set2 split: if_splits)
    show ?thesis
    proof (intro conjI impI)
      assume "isFilled fv r c"
      with ih f1 True p show "isFilled fv0 r c \<or>
            (\<exists>(x, y, z) \<in> set (p # ps). isBlock polyCube x y z \<and> r = GRID_SIZE - 1 - (y + oyf) \<and> c = x + oxf)"
        by auto
    next
      assume "isFilled tv r c"
      with ih t1 True p show "isFilled tv0 r c \<or>
            (\<exists>(x, y, z) \<in> set (p # ps). isBlock polyCube x y z \<and> r = x + oyt \<and> c = z + oxt)"
        by auto
    next
      assume "isFilled sv r c"
      with ih s1 True p show "isFilled sv0 r c \<or>
            (\<exists>(x, y, z) \<in> set (p # ps). isBlock polyCube x y z \<and> r = GRID_SIZE - 1 - (y + oys) \<and> c = z + oxs)"
        by auto
    qed
  qed
qed

lemma filled_has_source:
  assumes "isFilled (viewGrid (calculateOrthographicProjections S dims) V) r c"
      and "viewOffsetsOf (calculateOrthographicProjections S dims) V = Some offs"
  shows "\<exists>(x, y, z) \<in> set gridCells. isBlock S x y z \<and> contributes V r c offs (x, y, z)"
proof (cases "width dims = 0 \<or> height dims = 0 \<or> depth dims = 0")
  case True
  then have "\<not> isFilled (viewGrid (calculateOrthographicProjections S dims) V) r c"
    by (cases V) (simp_all add: calculateOrthographicProjections_def isFilled_empty)
  with assms show ?thesis by simp
next
  case False
  define oxf where "oxf = (GRID_SIZE - width dims) div 2"
  define oyf where "oyf = (GRID_SIZE - height dims) div 2"
  define oxt where "oxt = (GRID_SIZE - depth dims) div 2"
  define st where "st = fold (\<lambda>(x, y, z) views.
                   if isBlock S x y z
                   then projectStep oxf oyf oxt oxf oxt oyf (x, y, z) views
                   else views) gridCells (createEmptyGrid (nat GRID_SIZE) (nat GRID_SIZE),
                    createEmptyGrid (nat GRID_SIZE) (nat GRID_SIZE),
                    createEmptyGrid (nat GRID_SIZE) (nat GRID_SIZE))"
  obtain fv tv sv where fts: "st = (fv, tv, sv)" by (cases st) auto
  have views: "calculateOrthographicProjections S dims =
      \<lparr> frontView = fv, topView = tv, sideView = sv,
        frontOffsets = Some \<lparr> off_x = oxf, off_y = oyf \<rparr>,
        topOffsets = Some \<lparr> off_x = oxt, off_y = oxf \<rparr>,
        sideOffsets = Some \<lparr> off_x = oxt, off_y = oyf \<rparr> \<rparr>"
    using False fts unfolding calculateOrthographicProjections_def Let_def st_def oxf_def oyf_def oxt_def
    by simp
  note raw = projection_origin[OF fts[unfolded st_def], of r c]
  have origF: "isFilled fv r c \<Longrightarrow>
      \<exists>(x, y, z) \<in> set gridCells. isBlock S x y z \<and> r = GRID_SIZE - 1 - (y + oyf) \<and> c = x + oxf"
    using raw isFilled_empty by blast
  have origT: "isFilled tv r c \<Longrightarrow>
      \<exists>(x, y, z) \<in> set gridCells. isBlock S x y z \<and> r = x + oxf \<and> c = z + oxt"
    using raw isFilled_empty by blast
  have origS: "isFilled sv r c \<Longrightarrow>
      \<exists>(x, y, z) \<in> set gridCells. isBlock S x y z \<and> r = GRID_SIZE - 1 - (y + oyf) \<and> c = z + oxt"
    using raw isFilled_empty by blast
  show ?thesis
  proof (cases V)
    case View_front
    with assms views have "isFilled fv r c" "offs = \<lparr> off_x = oxf, off_y = oyf \<rparr>" by auto
    with origF View_front show ?thesis by (fastforce simp: Let_def)
  next
    case View_top
    with assms views have "isFilled tv r c" "offs = \<lparr> off_x = oxt, off_y = oxf \<rparr>" by auto
    with origT View_top show ?thesis by (fastforce simp: Let_def)
  next
    case View_side
    with assms views have "isFilled sv r c" "offs = \<lparr> off_x = oxt, off_y = oyf \<rparr>" by auto
    with origS View_side show ?thesis by (fastforce simp: Let_def)
  qed
qed

lemma contributes_forward:
  "contributes V r c offs (x, y, z) \<Longrightarrow>
   forwardCell V offs \<lparr> block_x = x, block_y = y, block_z = z \<rparr> = (r, c)"
  by (cases V) (auto simp: Let_def)

text \<open>
  Claim C1 (projection/unprojection round trip). For every polyCube \<open>S\<close>, every
  \<open>dims\<close>, every view \<open>V\<close> and every canvas cell \<open>(r, c)\<close> that holds 1 in the grid
  of \<open>V\<close> returned by \<open>calculateOrthographicProjections S dims\<close>, the call
  \<open>find3DBlocksFor2DCell S V r c offs dims\<close> with the offsets returned for \<open>V\<close>
  gives a non-empty list, every element of which is an occupied voxel of \<open>S\<close> that
  the forward formula of \<open>V\<close> places on exactly \<open>(r, c)\<close>.
\<close>

theorem projection_roundtrip:
  assumes "views = calculateOrthographicProjections S dims"
      and "isFilled (viewGrid views V) r c"
      and "viewOffsetsOf views V = Some offs"
  shows "find3DBlocksFor2DCell S V r c offs dims \<noteq> [] \<and>
         (\<forall>b \<in> set (find3DBlocksFor2DCell S V r c offs dims).
            isBlock S (block_x b) (block_y b) (block_z b) \<and> forwardCell V offs b = (r, c))"
proof -
  from filled_has_source[of S dims V r c offs] assms
  obtain x y z where "(x, y, z) \<in> set gridCells" "isBlock S x y z" "contributes V r c offs (x, y, z)"
    by auto
  then have "(x, y, z) \<in> set (filter (\<lambda>(x, y, z). isBlock S x y z \<and> contributes V r c offs (x, y, z)) gridCells)"
    by simp
  then have "find3DBlocksFor2DCell S V r c offs dims \<noteq> []"
    unfolding find3D_filter by (auto simp: filter_empty_conv)
  moreover have "\<forall>b \<in> set (find3DBlocksFor2DCell S V r c offs dims).
            isBlock S (block_x b) (block_y b) (block_z b) \<and> forwardCell V offs b = (r, c)"
    unfolding find3D_filter using contributes_forward by auto
  ultimately show ?thesis by simp
qed

theorem projection_roundtrip_witness:
  "isFilled (viewGrid (calculateOrthographicProjections (set3 emptyPolyCube 0 0 0 1)
                         \<lparr> width = 1, height = 1, depth = 1 \<rparr>) View_front) 4 3 \<and>
   viewOffsetsOf (calculateOrthographicProjections (set3 emptyPolyCube 0 0 0 1)
                    \<lparr> width = 1, height = 1, depth = 1 \<rparr>) View_front
     = Some \<lparr> off_x = 3, off_y = 3 \<rparr> \<and>
   find3DBlocksFor2DCell (set3 emptyPolyCube 0 0 0 1) View_front 4 3 \<lparr> off_x = 3, off_y = 3 \<rparr>
       \<lparr> width = 1, height = 1, depth = 1 \<rparr> \<noteq> [] \<and>
   list_all (\<lambda>b. isBlock (set3 emptyPolyCube 0 0 0 1) (block_x b) (block_y b) (block_z b) \<and>
                  forwardCell View_front \<lparr> off_x = 3, off_y = 3 \<rparr> b = (4, 3))
     (find3DBlocksFor2DCell (set3 emptyPolyCube 0 0 0 1) View_front 4 3 \<lparr> off_x = 3, off_y = 3 \<rparr>
        \<lparr> width = 1, height = 1, depth = 1 \<rparr>)"
proof -
  have h1: "isFilled (viewGrid (calculateOrthographicProjections (set3 emptyPolyCube 0 0 0 1)
                         \<lparr> width = 1, height = 1, depth = 1 \<rparr>) View_front) 4 3"
    by code_simp
  have h2: "viewOffsetsOf (calculateOrthographicProjections (set3 emptyPolyCube 0 0 0 1)
                    \<lparr> width = 1, height = 1, depth = 1 \<rparr>) View_front
     = Some \<lparr> off_x = 3, off_y = 3 \<rparr>"
    by (simp add: calculateOrthographicProjections_def split: prod.splits)
  from projection_roundtrip[OF refl h1 h2] h1 h2 show ?thesis
    unfolding list_all_iff by blast
qed

text \<open>
  Claim C8 (degenerate extents). When the \<open>dimensions\<close> argument has width 0 or
  height 0 or depth 0, \<open>calculateOrthographicProjections\<close> returns three
  \<open>GRID_SIZE \<times> GRID_SIZE\<close> grids that hold 0 everywhere, and the offsets (0, 0)
  for all three views, whatever the polyCube.
\<close>

theorem zero_extent_projection:
  assumes "width dimensions = 0 \<or> height dimensions = 0 \<or> depth dimensions = 0"
  shows "calculateOrthographicProjections polyCube dimensions =
     \<lparr> frontView = replicate 8 (replicate 8 0),
       topView = replicate 8 (replicate 8 0),
       sideView = replicate 8 (replicate 8 0),
       frontOffsets = Some \<lparr> off_x = 0, off_y = 0 \<rparr>,
       topOffsets = Some \<lparr> off_x = 0, off_y = 0 \<rparr>,
       sideOffsets = Some \<lparr> off_x = 0, off_y = 0 \<rparr> \<rparr>"
  using assms by (simp add: calculateOrthographicProjections_def createEmptyGrid_def)

theorem zero_extent_projection_witness:
  "(width \<lparr> width = 2, height = 0, depth = 3 \<rparr> = 0 \<or>
    height \<lparr> width = 2, height = 0, depth = 3 \<rparr> = 0 \<or>
    depth \<lparr> width = 2, height = 0, depth = 3 \<rparr> = 0) \<and>
   calculateOrthographicProjections (set3 emptyPolyCube 0 0 0 1) \<lparr> width = 2, height = 0, depth = 3 \<rparr> =
     \<lparr> frontView = replicate 8 (replicate 8 0),
       topView = replicate 8 (replicate 8 0),
       sideView = replicate 8 (replicate 8 0),
       frontOffsets = Some \<lparr> off_x = 0, off_y = 0 \<rparr>,
       topOffsets = Some \<lparr> off_x = 0, off_y = 0 \<rparr>,
       sideOffsets = Some \<lparr> off_x = 0, off_y = 0 \<rparr> \<rparr>"
proof -
  have h: "width \<lparr> width = 2, height = 0, depth = 3 \<rparr> = 0 \<or>
    height \<lparr> width = 2, height = 0, depth = 3 \<rparr> = 0 \<or>
    depth \<lparr> width = 2, height = 0, depth = 3 \<rparr> = 0" by simp
  from zero_extent_projection[OF h, of "set3 emptyPolyCube 0 0 0 1"] h show ?thesis by blast
qed

text \<open>
  Claim C10 (the dimensions argument is not used). For every polyCube, view, row,
  column and offsets, \<open>find3DBlocksFor2DCell\<close> returns the same list of block
  coordinates for any two \<open>Dimensions\<close> values.
\<close>

theorem find3DBlocksFor2DCell_ignores_dimensions:
  "find3DBlocksFor2DCell polyCube viewType row col viewOffsets d1 =
   find3DBlocksFor2DCell polyCube viewType row col viewOffsets d2"
  by (simp add: find3DBlocksFor2DCell_def)

section \<open>Normalisation: painting cells into a container\<close>

lemma nth_update_any:
  "xs[i := x] ! j = (if i = j \<and> i < length xs then x else xs ! j)"
  by (cases "i < length xs") (auto simp: nth_list_update list_update_beyond)

lemma set2_length [simp]: "length (set2 g i j v) = length g"
  by (simp add: set2_def)

lemma set2_row_length:
  "r < length g \<Longrightarrow> length (set2 g i j v ! r) = length (g ! r)"
  by (simp add: set2_def nth_update_any)

lemma set2_nth:
  assumes "0 \<le> i" "0 \<le> j" "r < length g" "c < length (g ! r)"
  shows "set2 g i j v ! r ! c = (if int r = i \<and> int c = j then v else g ! r ! c)"
  using assms by (auto simp: set2_def nth_update_any)

lemma set3_length [simp]: "length (set3 g i j k v) = length g"
  by (simp add: set3_def)

lemma set3_plane:
  "x < length g \<Longrightarrow> set3 g i j k v ! x = (if x = nat i then set2 (g ! x) j k v else g ! x)"
  by (simp add: set3_def nth_update_any)

text \<open>A rectangular canvas and a cubical container, by their extents.\<close>

lemma paint2:
  assumes "\<forall>p \<in> set ps. 0 \<le> fst (f p) \<and> 0 \<le> snd (f p)"
  shows "length (fold (\<lambda>p g. set2 g (fst (f p)) (snd (f p)) v) ps g) = length g \<and>
         (\<forall>r < length g.
            length (fold (\<lambda>p g. set2 g (fst (f p)) (snd (f p)) v) ps g ! r) = length (g ! r) \<and>
            (\<forall>c < length (g ! r).
               fold (\<lambda>p g. set2 g (fst (f p)) (snd (f p)) v) ps g ! r ! c =
                 (if \<exists>p \<in> set ps. f p = (int r, int c) then v else g ! r ! c)))"
  using assms
proof (induction ps arbitrary: g)
  case Nil
  then show ?case by simp
next
  case (Cons p ps)
  let ?g1 = "set2 g (fst (f p)) (snd (f p)) v"
  have pos: "0 \<le> fst (f p)" "0 \<le> snd (f p)" and rest: "\<forall>p \<in> set ps. 0 \<le> fst (f p) \<and> 0 \<le> snd (f p)"
    using Cons.prems by auto
  note ih = Cons.IH[OF rest, of ?g1]
  show ?case
  proof (intro conjI allI impI)
    show "length (fold (\<lambda>p g. set2 g (fst (f p)) (snd (f p)) v) (p # ps) g) = length g"
      using ih by simp
  next
    fix r assume r: "r < length g"
    then show "length (fold (\<lambda>p g. set2 g (fst (f p)) (snd (f p)) v) (p # ps) g ! r) = length (g ! r)"
      using ih by (simp add: set2_row_length)
  next
    fix r c assume r: "r < length g" and c: "c < length (g ! r)"
    have "fold (\<lambda>p g. set2 g (fst (f p)) (snd (f p)) v) (p # ps) g ! r ! c =
          (if \<exists>p \<in> set ps. f p = (int r, int c) then v else ?g1 ! r ! c)"
      using ih r c by (simp add: set2_row_length)
    also have "?g1 ! r ! c = (if int r = fst (f p) \<and> int c = snd (f p) then v else g ! r ! c)"
      using set2_nth[OF pos r c] .
    finally show "fold (\<lambda>p g. set2 g (fst (f p)) (snd (f p)) v) (p # ps) g ! r ! c =
                 (if \<exists>p \<in> set (p # ps). f p = (int r, int c) then v else g ! r ! c)"
      by (auto simp: prod_eq_iff)
  qed
qed

lemma set3_plane_length:
  "x < length g \<Longrightarrow> length (set3 g i j k v ! x) = length (g ! x)"
  by (simp add: set3_plane)

lemma set3_line_length:
  "x < length g \<Longrightarrow> y < length (g ! x) \<Longrightarrow> length (set3 g i j k v ! x ! y) = length (g ! x ! y)"
  by (auto simp: set3_plane set2_row_length)

lemma set3_nth:
  assumes "0 \<le> i" "0 \<le> j" "0 \<le> k" "x < length g" "y < length (g ! x)" "z < length (g ! x ! y)"
  shows "set3 g i j k v ! x ! y ! z =
           (if int x = i \<and> int y = j \<and> int z = k then v else g ! x ! y ! z)"
proof (cases "x = nat i")
  case True
  then have "set3 g i j k v ! x ! y ! z = set2 (g ! x) j k v ! y ! z"
    using assms by (simp add: set3_plane)
  also have "\<dots> = (if int y = j \<and> int z = k then v else g ! x ! y ! z)"
    using assms by (simp add: set2_nth)
  finally show ?thesis using True assms by auto
next
  case False
  then show ?thesis using assms by (auto simp: set3_plane)
qed

lemma paint3:
  assumes "\<forall>p \<in> set ps. 0 \<le> fx p \<and> 0 \<le> fy p \<and> 0 \<le> fz p"
  shows "length (fold (\<lambda>p g. set3 g (fx p) (fy p) (fz p) v) ps g) = length g \<and>
         (\<forall>x < length g.
            length (fold (\<lambda>p g. set3 g (fx p) (fy p) (fz p) v) ps g ! x) = length (g ! x) \<and>
            (\<forall>y < length (g ! x).
               length (fold (\<lambda>p g. set3 g (fx p) (fy p) (fz p) v) ps g ! x ! y) = length (g ! x ! y) \<and>
               (\<forall>z < length (g ! x ! y).
                  fold (\<lambda>p g. set3 g (fx p) (fy p) (fz p) v) ps g ! x ! y ! z =
                    (if \<exists>p \<in> set ps. fx p = int x \<and> fy p = int y \<and> fz p = int z
                     then v else g ! x ! y ! z))))"
  using assms
proof (induction ps arbitrary: g)
  case Nil
  then show ?case by simp
next
  case (Cons p ps)
  let ?g1 = "set3 g (fx p) (fy p) (fz p) v"
  let ?F = "fold (\<lambda>p g. set3 g (fx p) (fy p) (fz p) v)"
  have pos: "0 \<le> fx p" "0 \<le> fy p" "0 \<le> fz p"
    and rest: "\<forall>p \<in> set ps. 0 \<le> fx p \<and> 0 \<le> fy p \<and> 0 \<le> fz p"
    using Cons.prems by auto
  note ih = Cons.IH[OF rest, of ?g1]
  have step: "?F (p # ps) g = ?F ps ?g1" by simp
  show ?case
    unfolding step
  proof (intro conjI allI impI)
    show "length (?F ps ?g1) = length g"
      using ih by simp
  next
    fix x assume x: "x < length g"
    then show "length (?F ps ?g1 ! x) = length (g ! x)"
      using ih by (simp add: set3_plane_length)
  next
    fix x y assume x: "x < length g" and y: "y < length (g ! x)"
    then show "length (?F ps ?g1 ! x ! y) = length (g ! x ! y)"
      using ih by (simp add: set3_plane_length set3_line_length)
  next
    fix x y z assume x: "x < length g" and y: "y < length (g ! x)" and z: "z < length (g ! x ! y)"
    have "?F ps ?g1 ! x ! y ! z =
          (if \<exists>p \<in> set ps. fx p = int x \<and> fy p = int y \<and> fz p = int z then v else ?g1 ! x ! y ! z)"
      using ih x y z by (simp add: set3_plane_length set3_line_length)
    also have "?g1 ! x ! y ! z =
          (if int x = fx p \<and> int y = fy p \<and> int z = fz p then v else g ! x ! y ! z)"
      using set3_nth[OF pos x y z] .
    finally show "?F ps ?g1 ! x ! y ! z =
                 (if \<exists>p \<in> set (p # ps). fx p = int x \<and> fy p = int y \<and> fz p = int z
                  then v else g ! x ! y ! z)"
      by auto
  qed
qed

subsection \<open>What the scans collect\<close>

lemma scan3:
  "fold (\<lambda>(x, y, z) (blocks, minX, minY, minZ).
            if isBlock polyCube x y z
            then (blocks @ [\<lparr> block_x = x, block_y = y, block_z = z \<rparr>],
                  min minX x, min minY y, min minZ z)
            else (blocks, minX, minY, minZ)) ps (bs, a, b, c) =
     (bs @ map (\<lambda>(x, y, z). \<lparr> block_x = x, block_y = y, block_z = z \<rparr>)
             (filter (\<lambda>(x, y, z). isBlock polyCube x y z) ps),
      fold min (map fst (filter (\<lambda>(x, y, z). isBlock polyCube x y z) ps)) a,
      fold min (map (fst \<circ> snd) (filter (\<lambda>(x, y, z). isBlock polyCube x y z) ps)) b,
      fold min (map (snd \<circ> snd) (filter (\<lambda>(x, y, z). isBlock polyCube x y z) ps)) c)"
  by (induction ps arbitrary: bs a b c) (auto simp: min.commute)

lemma scan2:
  "fold (\<lambda>(r, c) (filledCells, minR, maxR, minC, maxC).
            if isFilled grid r c
            then (filledCells @ [(r, c)], min minR r, max maxR r, min minC c, max maxC c)
            else (filledCells, minR, maxR, minC, maxC)) ps (fs, a, b, c, d) =
     (fs @ filter (\<lambda>(r, c). isFilled grid r c) ps,
      fold min (map fst (filter (\<lambda>(r, c). isFilled grid r c) ps)) a,
      fold max (map fst (filter (\<lambda>(r, c). isFilled grid r c) ps)) b,
      fold min (map snd (filter (\<lambda>(r, c). isFilled grid r c) ps)) c,
      fold max (map snd (filter (\<lambda>(r, c). isFilled grid r c) ps)) d)"
  by (induction ps arbitrary: fs a b c d) (auto simp: min.commute max.commute)

lemma fold_min_Min: "fold min vs (a::int) = Min (insert a (set vs))"
  using Min.set_eq_fold[of a vs] by simp

lemma fold_max_Max: "fold max vs (a::int) = Max (insert a (set vs))"
  using Max.set_eq_fold[of a vs] by simp

lemma fold_min_le: "v \<in> set vs \<Longrightarrow> fold min vs (a::int) \<le> v"
  by (simp add: fold_min_Min)

lemma fold_min_le_start: "fold min vs (a::int) \<le> a"
  by (simp add: fold_min_Min)

lemma fold_min_attained:
  assumes "vs \<noteq> []" "\<forall>v \<in> set vs. v \<le> (a::int)"
  shows "fold min vs a \<in> set vs" "fold min vs a = Min (set vs)"
proof -
  have "Min (insert a (set vs)) = min a (Min (set vs))"
    using assms by (intro Min_insert) auto
  also have "\<dots> = Min (set vs)"
  proof -
    have "Min (set vs) \<in> set vs" using assms by (intro Min_in) auto
    then have "Min (set vs) \<le> a" using assms by blast
    then show ?thesis by simp
  qed
  finally show "fold min vs a = Min (set vs)" by (simp add: fold_min_Min)
  then show "fold min vs a \<in> set vs" using assms Min_in[of "set vs"] by simp
qed

lemma fold_max_attained:
  assumes "vs \<noteq> []" "\<forall>v \<in> set vs. (a::int) \<le> v"
  shows "fold max vs a \<in> set vs" "fold max vs a = Max (set vs)"
proof -
  have "Max (insert a (set vs)) = max a (Max (set vs))"
    using assms by (intro Max_insert) auto
  also have "\<dots> = Max (set vs)"
  proof -
    have "Max (set vs) \<in> set vs" using assms by (intro Max_in) auto
    then have "a \<le> Max (set vs)" using assms by blast
    then show ?thesis by simp
  qed
  finally show "fold max vs a = Max (set vs)" by (simp add: fold_max_Max)
  then show "fold max vs a \<in> set vs" using assms Max_in[of "set vs"] by simp
qed

subsection \<open>The normalised solid, cell by cell\<close>

lemma activeCells_bounds:
  "p \<in> set (activeCells polyCube) \<Longrightarrow>
     0 \<le> fst p \<and> fst p < 8 \<and> 0 \<le> fst (snd p) \<and> fst (snd p) < 8 \<and>
     0 \<le> snd (snd p) \<and> snd (snd p) < 8"
  by (cases p) (auto simp: activeCells_iff)

lemma normalizePolyCube_fold:
  "normalizePolyCube polyCube =
     fold (\<lambda>p g. set3 g (fst p - fold min (map fst (activeCells polyCube)) 8)
                         (fst (snd p) - fold min (map (fst \<circ> snd) (activeCells polyCube)) 8)
                         (snd (snd p) - fold min (map (snd \<circ> snd) (activeCells polyCube)) 8) 1)
          (activeCells polyCube)
          (replicate 8 (replicate 8 (replicate 8 0)))"
  unfolding normalizePolyCube_def scan3 activeCells_def[symmetric]
  by (simp add: fold_map comp_def case_prod_beta Let_def)

lemma extents3_nth:
  "extents3 g a b c \<longleftrightarrow>
     length g = a \<and> (\<forall>x < a. length (g ! x) = b \<and> (\<forall>y < b. length (g ! x ! y) = c))"
  by (auto simp: extents3_def extents2_def all_set_conv_all_nth)

lemma normalizePolyCube_cells:
  fixes polyCube
  defines "mx \<equiv> fold min (map fst (activeCells polyCube)) 8"
      and "my \<equiv> fold min (map (fst \<circ> snd) (activeCells polyCube)) 8"
      and "mz \<equiv> fold min (map (snd \<circ> snd) (activeCells polyCube)) 8"
  shows "extents3 (normalizePolyCube polyCube) 8 8 8"
    and "x < 8 \<Longrightarrow> y < 8 \<Longrightarrow> z < 8 \<Longrightarrow>
         normalizePolyCube polyCube ! x ! y ! z =
           (if (int x + mx, int y + my, int z + mz) \<in> set (activeCells polyCube) then 1 else 0)"
proof -
  let ?cells = "activeCells polyCube"
  let ?g0 = "replicate 8 (replicate 8 (replicate 8 (0::int)))"
  have pos: "\<forall>p \<in> set ?cells. 0 \<le> fst p - mx \<and> 0 \<le> fst (snd p) - my \<and> 0 \<le> snd (snd p) - mz"
  proof
    fix p assume p: "p \<in> set ?cells"
    have "mx \<le> fst p" unfolding mx_def using p by (intro fold_min_le) simp
    moreover have "my \<le> fst (snd p)" unfolding my_def using p by (intro fold_min_le) force
    moreover have "mz \<le> snd (snd p)" unfolding mz_def using p by (intro fold_min_le) force
    ultimately show "0 \<le> fst p - mx \<and> 0 \<le> fst (snd p) - my \<and> 0 \<le> snd (snd p) - mz"
      by simp
  qed
  note P = paint3[OF pos, of 1 ?g0, folded normalizePolyCube_fold[of polyCube, folded mx_def my_def mz_def]]
  show "extents3 (normalizePolyCube polyCube) 8 8 8"
    unfolding extents3_nth using P by simp
  assume xyz: "x < 8" "y < 8" "z < 8"
  have Q: "\<forall>x<8. \<forall>y<8. \<forall>z<8. normalizePolyCube polyCube ! x ! y ! z =
      (if \<exists>p \<in> set ?cells. fst p - mx = int x \<and> fst (snd p) - my = int y \<and> snd (snd p) - mz = int z
       then 1 else ?g0 ! x ! y ! z)"
    using P by simp
  have "?g0 ! x ! y ! z = 0" using xyz by simp
  with Q xyz have "normalizePolyCube polyCube ! x ! y ! z =
      (if \<exists>p \<in> set ?cells. fst p - mx = int x \<and> fst (snd p) - my = int y \<and> snd (snd p) - mz = int z
       then 1 else 0)"
    by presburger
  also have "(\<exists>p \<in> set ?cells. fst p - mx = int x \<and> fst (snd p) - my = int y \<and> snd (snd p) - mz = int z)
      \<longleftrightarrow> (int x + mx, int y + my, int z + mz) \<in> set ?cells"
    by (auto simp: algebra_simps) force
  finally show "normalizePolyCube polyCube ! x ! y ! z =
           (if (int x + mx, int y + my, int z + mz) \<in> set (activeCells polyCube) then 1 else 0)" .
qed

lemma fold_min_ge: "\<forall>v \<in> set vs. l \<le> v \<Longrightarrow> l \<le> a \<Longrightarrow> l \<le> fold min vs (a::int)"
  by (simp add: fold_min_Min)

lemma cube_eqI:
  assumes "extents3 A a b c" "extents3 B a b c"
      and "\<And>x y z. x < a \<Longrightarrow> y < b \<Longrightarrow> z < c \<Longrightarrow> A ! x ! y ! z = B ! x ! y ! z"
  shows "A = B"
proof (rule nth_equalityI)
  show "length A = length B" using assms by (simp add: extents3_nth)
next
  fix x assume x: "x < length A"
  then have xa: "x < a" using assms by (simp add: extents3_nth)
  show "A ! x = B ! x"
  proof (rule nth_equalityI)
    show "length (A ! x) = length (B ! x)" using assms xa by (simp add: extents3_nth)
  next
    fix y assume "y < length (A ! x)"
    then have yb: "y < b" using assms xa by (simp add: extents3_nth)
    show "A ! x ! y = B ! x ! y"
    proof (rule nth_equalityI)
      show "length (A ! x ! y) = length (B ! x ! y)" using assms xa yb by (simp add: extents3_nth)
    next
      fix z assume "z < length (A ! x ! y)"
      then have "z < c" using assms xa yb by (simp add: extents3_nth)
      then show "A ! x ! y ! z = B ! x ! y ! z" using assms(3) xa yb by simp
    qed
  qed
qed

lemma isBlock_cube:
  assumes "extents3 g 8 8 8"
  shows "isBlock g x y z \<longleftrightarrow>
     0 \<le> x \<and> x < 8 \<and> 0 \<le> y \<and> y < 8 \<and> 0 \<le> z \<and> z < 8 \<and> g ! nat x ! nat y ! nat z = 1"
proof (cases "0 \<le> x \<and> x < 8 \<and> 0 \<le> y \<and> y < 8 \<and> 0 \<le> z \<and> z < 8")
  case True
  then have n: "nat x < 8" "nat y < 8" "nat z < 8" by auto
  have l: "length g = 8" "length (g ! nat x) = 8" "length (g ! nat x ! nat y) = 8"
    using assms n by (auto simp: extents3_nth)
  show ?thesis using True l by (simp add: isBlock_def elemAt_def)
next
  case False
  have l: "length g = 8" using assms by (simp add: extents3_nth)
  show ?thesis
  proof (cases "0 \<le> x \<and> x < 8")
    case xr: True
    then have lx: "length (g ! nat x) = 8" using assms by (auto simp: extents3_nth)
    show ?thesis
    proof (cases "0 \<le> y \<and> y < 8")
      case yr: True
      then have ly: "length (g ! nat x ! nat y) = 8" using assms xr by (auto simp: extents3_nth)
      show ?thesis using False xr yr l lx ly by (auto simp: isBlock_def elemAt_def)
    next
      case False
      then show ?thesis using xr l lx by (auto simp: isBlock_def elemAt_def)
    qed
  next
    case False
    then show ?thesis using l by (auto simp: isBlock_def elemAt_def)
  qed
qed

lemma normalized_isBlock:
  "isBlock (normalizePolyCube polyCube) x y z \<longleftrightarrow>
     0 \<le> x \<and> x < 8 \<and> 0 \<le> y \<and> y < 8 \<and> 0 \<le> z \<and> z < 8 \<and>
     (x + fold min (map fst (activeCells polyCube)) 8,
      y + fold min (map (fst \<circ> snd) (activeCells polyCube)) 8,
      z + fold min (map (snd \<circ> snd) (activeCells polyCube)) 8) \<in> set (activeCells polyCube)"
proof (cases "0 \<le> x \<and> x < 8 \<and> 0 \<le> y \<and> y < 8 \<and> 0 \<le> z \<and> z < 8")
  case True
  then have n: "nat x < 8" "nat y < 8" "nat z < 8" by auto
  show ?thesis
    unfolding isBlock_cube[OF normalizePolyCube_cells(1)]
    using True normalizePolyCube_cells(2)[OF n, of polyCube] by simp
next
  case False
  then show ?thesis
    unfolding isBlock_cube[OF normalizePolyCube_cells(1)] by blast
qed

lemma mins_in_range:
  "0 \<le> fold min (map fst (activeCells polyCube)) 8"
  "0 \<le> fold min (map (fst \<circ> snd) (activeCells polyCube)) 8"
  "0 \<le> fold min (map (snd \<circ> snd) (activeCells polyCube)) 8"
  using activeCells_bounds[of _ polyCube] by (auto intro!: fold_min_ge)

lemma mins_below:
  assumes "p \<in> set (activeCells polyCube)"
  shows "fold min (map fst (activeCells polyCube)) 8 \<le> fst p"
    and "fold min (map (fst \<circ> snd) (activeCells polyCube)) 8 \<le> fst (snd p)"
    and "fold min (map (snd \<circ> snd) (activeCells polyCube)) 8 \<le> snd (snd p)"
  using assms by (auto intro!: fold_min_le)

lemma mins_attained:
  assumes "activeCells polyCube \<noteq> []"
  shows "fold min (map fst (activeCells polyCube)) 8 = Min (fst ` set (activeCells polyCube))"
    and "fold min (map (fst \<circ> snd) (activeCells polyCube)) 8
           = Min ((fst \<circ> snd) ` set (activeCells polyCube))"
    and "fold min (map (snd \<circ> snd) (activeCells polyCube)) 8
           = Min ((snd \<circ> snd) ` set (activeCells polyCube))"
proof -
  have b: "\<forall>v \<in> set (map fst (activeCells polyCube)). v \<le> 8"
       "\<forall>v \<in> set (map (fst \<circ> snd) (activeCells polyCube)). v \<le> 8"
       "\<forall>v \<in> set (map (snd \<circ> snd) (activeCells polyCube)). v \<le> 8"
    using activeCells_bounds[of _ polyCube] by fastforce+
  show "fold min (map fst (activeCells polyCube)) 8 = Min (fst ` set (activeCells polyCube))"
    using fold_min_attained(2)[OF _ b(1)] assms by simp
  show "fold min (map (fst \<circ> snd) (activeCells polyCube)) 8
           = Min ((fst \<circ> snd) ` set (activeCells polyCube))"
    using fold_min_attained(2)[OF _ b(2)] assms by simp
  show "fold min (map (snd \<circ> snd) (activeCells polyCube)) 8
           = Min ((snd \<circ> snd) ` set (activeCells polyCube))"
    using fold_min_attained(2)[OF _ b(3)] assms by simp
qed

lemma normalized_cells:
  "set (activeCells (normalizePolyCube polyCube)) =
     (\<lambda>p. (fst p - fold min (map fst (activeCells polyCube)) 8,
           fst (snd p) - fold min (map (fst \<circ> snd) (activeCells polyCube)) 8,
           snd (snd p) - fold min (map (snd \<circ> snd) (activeCells polyCube)) 8))
       ` set (activeCells polyCube)"
  (is "?L = ?f ` ?C")
proof (rule set_eqI)
  fix q :: "int \<times> int \<times> int"
  obtain x y z where q: "q = (x, y, z)" by (cases q) auto
  show "q \<in> ?L \<longleftrightarrow> q \<in> ?f ` ?C"
  proof
    assume "q \<in> ?L"
    then have "isBlock (normalizePolyCube polyCube) x y z"
      using q by (simp add: activeCells_iff)
    then have "(x + fold min (map fst (activeCells polyCube)) 8,
      y + fold min (map (fst \<circ> snd) (activeCells polyCube)) 8,
      z + fold min (map (snd \<circ> snd) (activeCells polyCube)) 8) \<in> ?C"
      by (simp add: normalized_isBlock)
    then have "?f (x + fold min (map fst (activeCells polyCube)) 8,
      y + fold min (map (fst \<circ> snd) (activeCells polyCube)) 8,
      z + fold min (map (snd \<circ> snd) (activeCells polyCube)) 8) \<in> ?f ` ?C"
      by (rule imageI)
    then show "q \<in> ?f ` ?C" using q by simp
  next
    assume "q \<in> ?f ` ?C"
    then obtain p where p: "p \<in> ?C" and qp: "q = ?f p" by blast
    from activeCells_bounds[OF p] mins_in_range[of polyCube] mins_below[OF p]
    have "0 \<le> x \<and> x < 8 \<and> 0 \<le> y \<and> y < 8 \<and> 0 \<le> z \<and> z < 8"
      using q qp by auto
    moreover have "(x + fold min (map fst (activeCells polyCube)) 8,
      y + fold min (map (fst \<circ> snd) (activeCells polyCube)) 8,
      z + fold min (map (snd \<circ> snd) (activeCells polyCube)) 8) = p"
      using q qp by (auto simp: prod_eq_iff)
    ultimately have "isBlock (normalizePolyCube polyCube) x y z"
      using p by (simp add: normalized_isBlock)
    then show "q \<in> ?L" using q \<open>0 \<le> x \<and> x < 8 \<and> 0 \<le> y \<and> y < 8 \<and> 0 \<le> z \<and> z < 8\<close>
      by (simp add: activeCells_iff)
  qed
qed

lemma Min_shift:
  assumes "finite A" "A \<noteq> {}"
  shows "Min ((\<lambda>v. v - (m::int)) ` A) = Min A - m"
proof (rule Min_eqI)
  show "finite ((\<lambda>v. v - m) ` A)" using assms by simp
  show "Min A - m \<in> (\<lambda>v. v - m) ` A" using assms by (intro imageI Min_in)
  fix y assume "y \<in> (\<lambda>v. v - m) ` A"
  then obtain v where "v \<in> A" "y = v - m" by blast
  then show "Min A - m \<le> y" using assms by simp
qed

lemma Max_shift:
  assumes "finite A" "A \<noteq> {}"
  shows "Max ((\<lambda>v. v - (m::int)) ` A) = Max A - m"
proof (rule Max_eqI)
  show "finite ((\<lambda>v. v - m) ` A)" using assms by simp
  show "Max A - m \<in> (\<lambda>v. v - m) ` A" using assms by (intro imageI Max_in)
  fix y assume "y \<in> (\<lambda>v. v - m) ` A"
  then obtain v where "v \<in> A" "y = v - m" by blast
  then show "y \<le> Max A - m" using assms by simp
qed

lemma normalized_nonempty:
  "activeCells (normalizePolyCube polyCube) = [] \<longleftrightarrow> activeCells polyCube = []"
proof -
  have "set (activeCells (normalizePolyCube polyCube)) = {} \<longleftrightarrow> set (activeCells polyCube) = {}"
    unfolding normalized_cells by (rule image_is_empty)
  then show ?thesis by (simp only: set_empty)
qed

lemma normalized_mins:
  assumes "activeCells polyCube \<noteq> []"
  shows "fold min (map fst (activeCells (normalizePolyCube polyCube))) 8 = 0"
    and "fold min (map (fst \<circ> snd) (activeCells (normalizePolyCube polyCube))) 8 = 0"
    and "fold min (map (snd \<circ> snd) (activeCells (normalizePolyCube polyCube))) 8 = 0"
proof -
  let ?C = "set (activeCells polyCube)"
  let ?N = "normalizePolyCube polyCube"
  have ne: "activeCells ?N \<noteq> []" using assms by (simp add: normalized_nonempty)
  have fin: "finite ?C" "?C \<noteq> {}" using assms by auto
  have "fst ` set (activeCells ?N) = (\<lambda>v. v - Min (fst ` ?C)) ` (fst ` ?C)"
    unfolding normalized_cells mins_attained[OF assms] by (simp add: image_image)
  then have "Min (fst ` set (activeCells ?N)) = 0"
    using fin by (simp add: Min_shift)
  then show "fold min (map fst (activeCells ?N)) 8 = 0"
    using mins_attained(1)[OF ne] by simp
  have "(fst \<circ> snd) ` set (activeCells ?N) = (\<lambda>v. v - Min ((fst \<circ> snd) ` ?C)) ` ((fst \<circ> snd) ` ?C)"
    unfolding normalized_cells mins_attained[OF assms] by (simp add: image_image)
  then have "Min ((fst \<circ> snd) ` set (activeCells ?N)) = 0"
    using fin by (simp add: Min_shift)
  then show "fold min (map (fst \<circ> snd) (activeCells ?N)) 8 = 0"
    using mins_attained(2)[OF ne] by simp
  have "(snd \<circ> snd) ` set (activeCells ?N) = (\<lambda>v. v - Min ((snd \<circ> snd) ` ?C)) ` ((snd \<circ> snd) ` ?C)"
    unfolding normalized_cells mins_attained[OF assms] by (simp add: image_image)
  then have "Min ((snd \<circ> snd) ` set (activeCells ?N)) = 0"
    using fin by (simp add: Min_shift)
  then show "fold min (map (snd \<circ> snd) (activeCells ?N)) 8 = 0"
    using mins_attained(3)[OF ne] by simp
qed

lemma normalizePolyCube_idem:
  "normalizePolyCube (normalizePolyCube polyCube) = normalizePolyCube polyCube"
proof (rule cube_eqI[where a = 8 and b = 8 and c = 8])
  let ?N = "normalizePolyCube polyCube"
  show "extents3 (normalizePolyCube ?N) 8 8 8" "extents3 ?N 8 8 8"
    by (rule normalizePolyCube_cells(1))+
  fix x y z :: nat
  assume xyz: "x < 8" "y < 8" "z < 8"
  show "normalizePolyCube ?N ! x ! y ! z = ?N ! x ! y ! z"
  proof (cases "activeCells polyCube = []")
    case True
    then have "activeCells ?N = []" by (simp add: normalized_nonempty)
    then show ?thesis
      using True normalizePolyCube_cells(2)[OF xyz, of ?N] normalizePolyCube_cells(2)[OF xyz, of polyCube]
      by simp
  next
    case False
    have "normalizePolyCube ?N ! x ! y ! z =
            (if (int x, int y, int z) \<in> set (activeCells ?N) then 1 else 0)"
      using normalizePolyCube_cells(2)[OF xyz, of ?N] by (simp add: normalized_mins[OF False])
    also have "(int x, int y, int z) \<in> set (activeCells ?N) \<longleftrightarrow> ?N ! x ! y ! z = 1"
      using xyz by (simp add: activeCells_iff isBlock_cube[OF normalizePolyCube_cells(1)])
    also have "(if ?N ! x ! y ! z = 1 then 1 else 0) = ?N ! x ! y ! z"
      using normalizePolyCube_cells(2)[OF xyz, of polyCube] by simp
    finally show ?thesis .
  qed
qed

subsection \<open>The normalised canvas, cell by cell\<close>

lemma set_gridCells2:
  "set gridCells2 = {(r, c). 0 \<le> r \<and> r < 8 \<and> 0 \<le> c \<and> c < 8}"
  by (force simp: gridCells2_def)

lemma filledCellsOf_iff:
  "(r, c) \<in> set (filledCellsOf grid) \<longleftrightarrow> 0 \<le> r \<and> r < 8 \<and> 0 \<le> c \<and> c < 8 \<and> isFilled grid r c"
  by (auto simp: filledCellsOf_def set_gridCells2)

lemma filledCellsOf_bounds:
  "p \<in> set (filledCellsOf grid) \<Longrightarrow> 0 \<le> fst p \<and> fst p < 8 \<and> 0 \<le> snd p \<and> snd p < 8"
  by (cases p) (auto simp: filledCellsOf_iff)

lemma normalize2DGrid_fold:
  "normalize2DGrid grid =
     (if filledCellsOf grid = []
      then \<lparr> normalizedGrid = [], dimensions2D = \<lparr> width2D = 0, height2D = 0 \<rparr> \<rparr>
      else \<lparr> normalizedGrid =
               fold (\<lambda>p g. set2 g (fst p - fold min (map fst (filledCellsOf grid)) 8)
                                   (snd p - fold min (map snd (filledCellsOf grid)) 8) 1)
                    (filledCellsOf grid)
                    (replicate (nat (fold max (map fst (filledCellsOf grid)) (-1)
                                     - fold min (map fst (filledCellsOf grid)) 8 + 1))
                       (replicate (nat (fold max (map snd (filledCellsOf grid)) (-1)
                                        - fold min (map snd (filledCellsOf grid)) 8 + 1)) 0)),
             dimensions2D =
               \<lparr> width2D = fold max (map snd (filledCellsOf grid)) (-1)
                             - fold min (map snd (filledCellsOf grid)) 8 + 1,
                 height2D = fold max (map fst (filledCellsOf grid)) (-1)
                              - fold min (map fst (filledCellsOf grid)) 8 + 1 \<rparr> \<rparr>)"
  unfolding normalize2DGrid_def scan2 filledCellsOf_def[symmetric]
  by (simp add: case_prod_unfold Let_def)

lemma rows_attained:
  assumes "filledCellsOf grid \<noteq> []"
  shows "fold min (map fst (filledCellsOf grid)) 8 = Min (fst ` set (filledCellsOf grid))"
    and "fold max (map fst (filledCellsOf grid)) (-1) = Max (fst ` set (filledCellsOf grid))"
    and "fold min (map snd (filledCellsOf grid)) 8 = Min (snd ` set (filledCellsOf grid))"
    and "fold max (map snd (filledCellsOf grid)) (-1) = Max (snd ` set (filledCellsOf grid))"
proof -
  have b: "\<forall>v \<in> set (map fst (filledCellsOf grid)). v \<le> 8"
          "\<forall>v \<in> set (map fst (filledCellsOf grid)). -1 \<le> v"
          "\<forall>v \<in> set (map snd (filledCellsOf grid)). v \<le> 8"
          "\<forall>v \<in> set (map snd (filledCellsOf grid)). -1 \<le> v"
    using filledCellsOf_bounds[of _ grid] by fastforce+
  show "fold min (map fst (filledCellsOf grid)) 8 = Min (fst ` set (filledCellsOf grid))"
    using fold_min_attained(2)[OF _ b(1)] assms by simp
  show "fold max (map fst (filledCellsOf grid)) (-1) = Max (fst ` set (filledCellsOf grid))"
    using fold_max_attained(2)[OF _ b(2)] assms by simp
  show "fold min (map snd (filledCellsOf grid)) 8 = Min (snd ` set (filledCellsOf grid))"
    using fold_min_attained(2)[OF _ b(3)] assms by simp
  show "fold max (map snd (filledCellsOf grid)) (-1) = Max (snd ` set (filledCellsOf grid))"
    using fold_max_attained(2)[OF _ b(4)] assms by simp
qed

lemma extents2_nth:
  "extents2 g h w \<longleftrightarrow> length g = h \<and> (\<forall>r < h. length (g ! r) = w)"
  by (auto simp: extents2_def all_set_conv_all_nth)

lemma isFilled_canvas:
  assumes "extents2 g h w"
  shows "isFilled g r c \<longleftrightarrow>
     0 \<le> r \<and> r < int h \<and> 0 \<le> c \<and> c < int w \<and> g ! nat r ! nat c = 1"
proof (cases "0 \<le> r \<and> r < int h")
  case True
  then have "length (g ! nat r) = w" using assms by (auto simp: extents2_nth)
  moreover have "length g = h" using assms by (simp add: extents2_nth)
  ultimately show ?thesis using True by (auto simp: isFilled_def elemAt_def)
next
  case False
  moreover have "length g = h" using assms by (simp add: extents2_nth)
  ultimately show ?thesis by (auto simp: isFilled_def elemAt_def)
qed

lemma canvas_eqI:
  assumes "extents2 A h w" "extents2 B h w"
      and "\<And>r c. r < h \<Longrightarrow> c < w \<Longrightarrow> A ! r ! c = B ! r ! c"
  shows "A = B"
proof (rule nth_equalityI)
  show "length A = length B" using assms by (simp add: extents2_nth)
next
  fix r assume "r < length A"
  then have rh: "r < h" using assms by (simp add: extents2_nth)
  show "A ! r = B ! r"
  proof (rule nth_equalityI)
    show "length (A ! r) = length (B ! r)" using assms rh by (simp add: extents2_nth)
  next
    fix c assume "c < length (A ! r)"
    then have "c < w" using assms rh by (simp add: extents2_nth)
    then show "A ! r ! c = B ! r ! c" using assms(3) rh by simp
  qed
qed

text \<open>The tight canvas of a non-empty scan: its extents and its cells.\<close>

lemma normalize2DGrid_cells:
  fixes grid
  defines "C \<equiv> set (filledCellsOf grid)"
  assumes ne: "filledCellsOf grid \<noteq> []"
  shows "dimensions2D (normalize2DGrid grid) =
           \<lparr> width2D = Max (snd ` C) - Min (snd ` C) + 1,
             height2D = Max (fst ` C) - Min (fst ` C) + 1 \<rparr>"
    and "extents2 (normalizedGrid (normalize2DGrid grid))
           (nat (Max (fst ` C) - Min (fst ` C) + 1)) (nat (Max (snd ` C) - Min (snd ` C) + 1))"
    and "r < nat (Max (fst ` C) - Min (fst ` C) + 1) \<Longrightarrow>
         c < nat (Max (snd ` C) - Min (snd ` C) + 1) \<Longrightarrow>
         normalizedGrid (normalize2DGrid grid) ! r ! c =
           (if (int r + Min (fst ` C), int c + Min (snd ` C)) \<in> C then 1 else 0)"
proof -
  let ?cells = "filledCellsOf grid"
  let ?h = "nat (Max (fst ` C) - Min (fst ` C) + 1)"
  let ?w = "nat (Max (snd ` C) - Min (snd ` C) + 1)"
  let ?g0 = "replicate ?h (replicate ?w (0::int))"
  let ?f = "\<lambda>p. (fst p - Min (fst ` C), snd p - Min (snd ` C))"
  have fin: "finite C" "C \<noteq> {}" using ne by (auto simp: C_def)
  have G: "normalizedGrid (normalize2DGrid grid) =
           fold (\<lambda>p g. set2 g (fst (?f p)) (snd (?f p)) 1) ?cells ?g0"
    unfolding normalize2DGrid_fold rows_attained[OF ne] using ne by (simp add: C_def)
  show "dimensions2D (normalize2DGrid grid) =
           \<lparr> width2D = Max (snd ` C) - Min (snd ` C) + 1,
             height2D = Max (fst ` C) - Min (fst ` C) + 1 \<rparr>"
    unfolding normalize2DGrid_fold rows_attained[OF ne] using ne by (simp add: C_def)
  have pos: "\<forall>p \<in> set ?cells. 0 \<le> fst (?f p) \<and> 0 \<le> snd (?f p)"
    using fin by (auto simp: C_def)
  note P = paint2[OF pos, of 1 ?g0, folded G]
  show "extents2 (normalizedGrid (normalize2DGrid grid)) ?h ?w"
    unfolding extents2_nth using P by simp
  assume rc: "r < ?h" "c < ?w"
  have Q: "\<forall>r < ?h. \<forall>c < ?w. normalizedGrid (normalize2DGrid grid) ! r ! c =
      (if \<exists>p \<in> set ?cells. ?f p = (int r, int c) then 1 else ?g0 ! r ! c)"
    using P by simp
  have "?g0 ! r ! c = 0" using rc by simp
  with Q rc have "normalizedGrid (normalize2DGrid grid) ! r ! c =
      (if \<exists>p \<in> set ?cells. ?f p = (int r, int c) then 1 else 0)"
    by presburger
  also have "(\<exists>p \<in> set ?cells. ?f p = (int r, int c))
      \<longleftrightarrow> (int r + Min (fst ` C), int c + Min (snd ` C)) \<in> C"
    unfolding C_def by (auto simp: algebra_simps prod_eq_iff) force
  finally show "normalizedGrid (normalize2DGrid grid) ! r ! c =
           (if (int r + Min (fst ` C), int c + Min (snd ` C)) \<in> C then 1 else 0)" .
qed

lemma span_bounds:
  assumes "filledCellsOf grid \<noteq> []"
  shows "Max (fst ` set (filledCellsOf grid)) - Min (fst ` set (filledCellsOf grid)) + 1 \<le> 8"
    and "Max (snd ` set (filledCellsOf grid)) - Min (snd ` set (filledCellsOf grid)) + 1 \<le> 8"
    and "0 \<le> Min (fst ` set (filledCellsOf grid))"
    and "0 \<le> Min (snd ` set (filledCellsOf grid))"
proof -
  let ?C = "set (filledCellsOf grid)"
  have fin: "finite (fst ` ?C)" "fst ` ?C \<noteq> {}" "finite (snd ` ?C)" "snd ` ?C \<noteq> {}"
    using assms by auto
  have "Max (fst ` ?C) \<in> fst ` ?C" "Min (fst ` ?C) \<in> fst ` ?C"
       "Max (snd ` ?C) \<in> snd ` ?C" "Min (snd ` ?C) \<in> snd ` ?C"
    using fin by (auto intro: Max_in Min_in)
  then have "Max (fst ` ?C) < 8" "0 \<le> Min (fst ` ?C)" "Max (snd ` ?C) < 8" "0 \<le> Min (snd ` ?C)"
    using filledCellsOf_bounds[of _ grid] by fastforce+
  then show "Max (fst ` ?C) - Min (fst ` ?C) + 1 \<le> 8" "Max (snd ` ?C) - Min (snd ` ?C) + 1 \<le> 8"
    "0 \<le> Min (fst ` ?C)" "0 \<le> Min (snd ` ?C)"
    by auto
qed

lemma normalized2D_cells:
  assumes ne: "filledCellsOf grid \<noteq> []"
  shows "set (filledCellsOf (normalizedGrid (normalize2DGrid grid))) =
     (\<lambda>p. (fst p - Min (fst ` set (filledCellsOf grid)), snd p - Min (snd ` set (filledCellsOf grid))))
       ` set (filledCellsOf grid)"
  (is "?L = ?f ` ?C")
proof (rule set_eqI)
  let ?G = "normalizedGrid (normalize2DGrid grid)"
  let ?h = "Max (fst ` ?C) - Min (fst ` ?C) + 1"
  let ?w = "Max (snd ` ?C) - Min (snd ` ?C) + 1"
  have fin: "finite ?C" "?C \<noteq> {}" using ne by auto
  note ext = normalize2DGrid_cells(2)[OF ne]
  note cell = normalize2DGrid_cells(3)[OF ne]
  have filled: "isFilled ?G r c \<longleftrightarrow>
        0 \<le> r \<and> r < ?h \<and> 0 \<le> c \<and> c < ?w \<and> (r + Min (fst ` ?C), c + Min (snd ` ?C)) \<in> ?C" for r c
  proof (cases "0 \<le> r \<and> r < ?h \<and> 0 \<le> c \<and> c < ?w")
    case True
    then have "nat r < nat ?h" "nat c < nat ?w" by auto
    from cell[OF this] True show ?thesis
      unfolding isFilled_canvas[OF ext] by auto
  next
    case False
    then show ?thesis unfolding isFilled_canvas[OF ext] by auto
  qed
  fix q :: "int \<times> int"
  obtain r c where q: "q = (r, c)" by (cases q) auto
  show "q \<in> ?L \<longleftrightarrow> q \<in> ?f ` ?C"
  proof
    assume "q \<in> ?L"
    then have "(r + Min (fst ` ?C), c + Min (snd ` ?C)) \<in> ?C"
      using q by (simp add: filledCellsOf_iff filled)
    then have "?f (r + Min (fst ` ?C), c + Min (snd ` ?C)) \<in> ?f ` ?C"
      by (rule imageI)
    then show "q \<in> ?f ` ?C" using q by simp
  next
    assume "q \<in> ?f ` ?C"
    then obtain p where p: "p \<in> ?C" and qp: "q = ?f p" by blast
    have "Min (fst ` ?C) \<le> fst p" "fst p \<le> Max (fst ` ?C)"
         "Min (snd ` ?C) \<le> snd p" "snd p \<le> Max (snd ` ?C)"
      using p fin by auto
    then have rng: "0 \<le> r \<and> r < ?h \<and> 0 \<le> c \<and> c < ?w"
      using q qp by auto
    moreover have "(r + Min (fst ` ?C), c + Min (snd ` ?C)) = p"
      using q qp by (auto simp: prod_eq_iff)
    ultimately have "isFilled ?G r c" using p by (simp add: filled)
    moreover have "r < 8" "c < 8" using rng span_bounds(1,2)[OF ne] by auto
    ultimately show "q \<in> ?L" using q rng by (simp add: filledCellsOf_iff)
  qed
qed

lemma normalized2D_nonempty:
  assumes "filledCellsOf grid \<noteq> []"
  shows "filledCellsOf (normalizedGrid (normalize2DGrid grid)) \<noteq> []"
proof -
  have "set (filledCellsOf (normalizedGrid (normalize2DGrid grid))) \<noteq> {}"
    unfolding normalized2D_cells[OF assms] using assms by simp
  then show ?thesis by auto
qed

lemma normalized2D_span:
  assumes ne: "filledCellsOf grid \<noteq> []"
  shows "Min (fst ` set (filledCellsOf (normalizedGrid (normalize2DGrid grid)))) = 0"
    and "Min (snd ` set (filledCellsOf (normalizedGrid (normalize2DGrid grid)))) = 0"
    and "Max (fst ` set (filledCellsOf (normalizedGrid (normalize2DGrid grid))))
           = Max (fst ` set (filledCellsOf grid)) - Min (fst ` set (filledCellsOf grid))"
    and "Max (snd ` set (filledCellsOf (normalizedGrid (normalize2DGrid grid))))
           = Max (snd ` set (filledCellsOf grid)) - Min (snd ` set (filledCellsOf grid))"
proof -
  let ?C = "set (filledCellsOf grid)"
  let ?G = "normalizedGrid (normalize2DGrid grid)"
  have fin: "finite (fst ` ?C)" "fst ` ?C \<noteq> {}" "finite (snd ` ?C)" "snd ` ?C \<noteq> {}"
    using ne by auto
  have r: "fst ` set (filledCellsOf ?G) = (\<lambda>v. v - Min (fst ` ?C)) ` (fst ` ?C)"
    unfolding normalized2D_cells[OF ne] by (simp add: image_image)
  have c: "snd ` set (filledCellsOf ?G) = (\<lambda>v. v - Min (snd ` ?C)) ` (snd ` ?C)"
    unfolding normalized2D_cells[OF ne] by (simp add: image_image)
  show "Min (fst ` set (filledCellsOf ?G)) = 0"
    unfolding r using fin by (simp add: Min_shift)
  show "Min (snd ` set (filledCellsOf ?G)) = 0"
    unfolding c using fin by (simp add: Min_shift)
  show "Max (fst ` set (filledCellsOf ?G)) = Max (fst ` ?C) - Min (fst ` ?C)"
    unfolding r using fin by (simp add: Max_shift)
  show "Max (snd ` set (filledCellsOf ?G)) = Max (snd ` ?C) - Min (snd ` ?C)"
    unfolding c using fin by (simp add: Max_shift)
qed

lemma normalize2DGrid_idem:
  "normalize2DGrid (normalizedGrid (normalize2DGrid grid)) = normalize2DGrid grid"
proof (cases "filledCellsOf grid = []")
  case True
  have "elemAt ([] :: int list list) i = None" for i
    by (simp add: elemAt_def)
  then have e: "filledCellsOf [] = []"
    by (simp add: filledCellsOf_def isFilled_def)
  have "normalize2DGrid grid = \<lparr> normalizedGrid = [], dimensions2D = \<lparr> width2D = 0, height2D = 0 \<rparr> \<rparr>"
    using True by (simp add: normalize2DGrid_fold)
  moreover have "normalize2DGrid [] = \<lparr> normalizedGrid = [], dimensions2D = \<lparr> width2D = 0, height2D = 0 \<rparr> \<rparr>"
    using e by (simp add: normalize2DGrid_fold)
  ultimately show ?thesis by simp
next
  case ne: False
  let ?C = "set (filledCellsOf grid)"
  let ?G = "normalizedGrid (normalize2DGrid grid)"
  let ?h = "Max (fst ` ?C) - Min (fst ` ?C) + 1"
  let ?w = "Max (snd ` ?C) - Min (snd ` ?C) + 1"
  note ne' = normalized2D_nonempty[OF ne]
  note sp = normalized2D_span[OF ne]
  have d: "dimensions2D (normalize2DGrid ?G) = dimensions2D (normalize2DGrid grid)"
    unfolding normalize2DGrid_cells(1)[OF ne'] normalize2DGrid_cells(1)[OF ne] sp by simp
  have e1: "extents2 ?G (nat ?h) (nat ?w)"
    by (rule normalize2DGrid_cells(2)[OF ne])
  have e2: "extents2 (normalizedGrid (normalize2DGrid ?G)) (nat ?h) (nat ?w)"
    using normalize2DGrid_cells(2)[OF ne'] unfolding sp by simp
  have g: "normalizedGrid (normalize2DGrid ?G) = ?G"
  proof (rule canvas_eqI[OF e2 e1])
    fix r c assume rc: "r < nat ?h" "c < nat ?w"
    then have rc': "r < nat (Max (fst ` set (filledCellsOf ?G)) - Min (fst ` set (filledCellsOf ?G)) + 1)"
                   "c < nat (Max (snd ` set (filledCellsOf ?G)) - Min (snd ` set (filledCellsOf ?G)) + 1)"
      unfolding sp by simp_all
    have small: "int r < 8" "int c < 8" using rc span_bounds(1,2)[OF ne] by auto
    have "normalizedGrid (normalize2DGrid ?G) ! r ! c =
            (if (int r, int c) \<in> set (filledCellsOf ?G) then 1 else 0)"
      using normalize2DGrid_cells(3)[OF ne' rc'] unfolding sp by simp
    also have "(int r, int c) \<in> set (filledCellsOf ?G) \<longleftrightarrow> ?G ! r ! c = 1"
    proof -
      have "int r < ?h" "int c < ?w" using rc by linarith+
      then show ?thesis
        using small by (simp add: filledCellsOf_iff isFilled_canvas[OF e1])
    qed
    also have "(if ?G ! r ! c = 1 then 1 else 0) = ?G ! r ! c"
      using normalize2DGrid_cells(3)[OF ne rc] by simp
    finally show "normalizedGrid (normalize2DGrid ?G) ! r ! c = ?G ! r ! c" .
  qed
  show ?thesis
    by (rule Normalized2D.equality) (simp_all add: d g)
qed

section \<open>Normalisation: the claims\<close>

text \<open>
  Claim C4 as stated fails for the solid: \<open>normalizePolyCube\<close> always allocates a
  \<open>GRID_SIZE\<close>-cubed container. For the one-voxel solid the occupied span along x
  is \<open>max - min + 1 = 1\<close>, yet the returned container has 8 planes.
\<close>

theorem normalizePolyCube_not_tight:
  "activeCells (set3 emptyPolyCube 0 0 0 1) = [(0, 0, 0)] \<and>
   length (normalizePolyCube (set3 emptyPolyCube 0 0 0 1)) = 8 \<and>
   int (length (normalizePolyCube (set3 emptyPolyCube 0 0 0 1))) \<noteq>
     Max (fst ` set (activeCells (set3 emptyPolyCube 0 0 0 1))) - Min (fst ` set (activeCells (set3 emptyPolyCube 0 0 0 1))) + 1"
proof -
  have c: "activeCells (set3 emptyPolyCube 0 0 0 1) = [(0, 0, 0)]"
    by code_simp
  have l: "length (normalizePolyCube (set3 emptyPolyCube 0 0 0 1)) = 8"
    using normalizePolyCube_cells(1)[of "set3 emptyPolyCube 0 0 0 1"] by (simp add: extents3_nth)
  show ?thesis
    unfolding l c by simp
qed

text \<open>
  Claim C4, amended. For a canvas in which the scan finds a filled cell,
  \<open>normalize2DGrid\<close> returns a canvas with \<open>maxR - minR + 1\<close> rows of
  \<open>maxC - minC + 1\<close> cells (and reports these as its dimensions) whose filled cells
  are exactly the scanned filled cells moved by \<open>(-minR, -minC)\<close>. For a solid in
  which the scan finds an occupied cell, \<open>normalizePolyCube\<close> returns a container of
  extent \<open>GRID_SIZE\<close> on every axis whose occupied cells are exactly the scanned
  occupied cells moved by the per-axis minima. In both results the least occupied
  coordinate on every axis is 0.
\<close>

theorem normalization_moves_to_origin:
  assumes "activeCells polyCube \<noteq> []" and "filledCellsOf grid \<noteq> []"
  shows "extents3 (normalizePolyCube polyCube) 8 8 8 \<and>
         set (activeCells (normalizePolyCube polyCube)) =
           (\<lambda>p. (fst p - Min (fst ` set (activeCells polyCube)),
                 fst (snd p) - Min ((fst \<circ> snd) ` set (activeCells polyCube)),
                 snd (snd p) - Min ((snd \<circ> snd) ` set (activeCells polyCube))))
             ` set (activeCells polyCube) \<and>
         Min (fst ` set (activeCells (normalizePolyCube polyCube))) = 0 \<and>
         Min ((fst \<circ> snd) ` set (activeCells (normalizePolyCube polyCube))) = 0 \<and>
         Min ((snd \<circ> snd) ` set (activeCells (normalizePolyCube polyCube))) = 0 \<and>
         extents2 (normalizedGrid (normalize2DGrid grid))
           (nat (Max (fst ` set (filledCellsOf grid)) - Min (fst ` set (filledCellsOf grid)) + 1))
           (nat (Max (snd ` set (filledCellsOf grid)) - Min (snd ` set (filledCellsOf grid)) + 1)) \<and>
         dimensions2D (normalize2DGrid grid) =
           \<lparr> width2D = Max (snd ` set (filledCellsOf grid)) - Min (snd ` set (filledCellsOf grid)) + 1,
             height2D = Max (fst ` set (filledCellsOf grid)) - Min (fst ` set (filledCellsOf grid)) + 1 \<rparr> \<and>
         set (filledCellsOf (normalizedGrid (normalize2DGrid grid))) =
           (\<lambda>p. (fst p - Min (fst ` set (filledCellsOf grid)),
                 snd p - Min (snd ` set (filledCellsOf grid))))
             ` set (filledCellsOf grid) \<and>
         Min (fst ` set (filledCellsOf (normalizedGrid (normalize2DGrid grid)))) = 0 \<and>
         Min (snd ` set (filledCellsOf (normalizedGrid (normalize2DGrid grid)))) = 0"
proof -
  have ne3: "activeCells (normalizePolyCube polyCube) \<noteq> []"
    using assms(1) by (simp add: normalized_nonempty)
  have m3: "Min (fst ` set (activeCells (normalizePolyCube polyCube))) = 0"
           "Min ((fst \<circ> snd) ` set (activeCells (normalizePolyCube polyCube))) = 0"
           "Min ((snd \<circ> snd) ` set (activeCells (normalizePolyCube polyCube))) = 0"
    using normalized_mins[OF assms(1)] mins_attained[OF ne3] by simp_all
  have c3: "set (activeCells (normalizePolyCube polyCube)) =
           (\<lambda>p. (fst p - Min (fst ` set (activeCells polyCube)),
                 fst (snd p) - Min ((fst \<circ> snd) ` set (activeCells polyCube)),
                 snd (snd p) - Min ((snd \<circ> snd) ` set (activeCells polyCube))))
             ` set (activeCells polyCube)"
    using normalized_cells[of polyCube] unfolding mins_attained[OF assms(1)] .
  show ?thesis
    using normalizePolyCube_cells(1)[of polyCube] c3 m3
      normalize2DGrid_cells(1,2)[OF assms(2)] normalized2D_cells[OF assms(2)]
      normalized2D_span(1,2)[OF assms(2)]
    by simp
qed

theorem normalization_moves_to_origin_witness:
  "activeCells (set3 emptyPolyCube 0 0 1 1) \<noteq> [] \<and> filledCellsOf (set2 emptyCanvas 1 1 1) \<noteq> [] \<and>
   extents3 (normalizePolyCube (set3 emptyPolyCube 0 0 1 1)) 8 8 8 \<and>
   Min (fst ` set (activeCells (normalizePolyCube (set3 emptyPolyCube 0 0 1 1)))) = 0 \<and>
   Min ((fst \<circ> snd) ` set (activeCells (normalizePolyCube (set3 emptyPolyCube 0 0 1 1)))) = 0 \<and>
   Min ((snd \<circ> snd) ` set (activeCells (normalizePolyCube (set3 emptyPolyCube 0 0 1 1)))) = 0 \<and>
   dimensions2D (normalize2DGrid (set2 emptyCanvas 1 1 1)) = \<lparr> width2D = 1, height2D = 1 \<rparr> \<and>
   extents2 (normalizedGrid (normalize2DGrid (set2 emptyCanvas 1 1 1))) 1 1 \<and>
   Min (fst ` set (filledCellsOf (normalizedGrid (normalize2DGrid (set2 emptyCanvas 1 1 1))))) = 0 \<and>
   Min (snd ` set (filledCellsOf (normalizedGrid (normalize2DGrid (set2 emptyCanvas 1 1 1))))) = 0"
proof -
  have c3: "activeCells (set3 emptyPolyCube 0 0 1 1) = [(0, 0, 1)]"
    by code_simp
  have c2: "filledCellsOf (set2 emptyCanvas 1 1 1) = [(1, 1)]"
    by code_simp
  have h3: "activeCells (set3 emptyPolyCube 0 0 1 1) \<noteq> []" by (simp add: c3)
  have h2: "filledCellsOf (set2 emptyCanvas 1 1 1) \<noteq> []" by (simp add: c2)
  from normalization_moves_to_origin[OF h3 h2] h3 h2 show ?thesis
    by (simp add: c2 c3)
qed

text \<open>
  Claim C5 (idempotence). Normalising the result of a normalisation gives that result
  again, for every solid and every canvas, empty ones included; for a canvas the
  reported dimensions are reproduced as well.
\<close>

theorem normalization_idempotent:
  "normalizePolyCube (normalizePolyCube polyCube) = normalizePolyCube polyCube \<and>
   normalize2DGrid (normalizedGrid (normalize2DGrid grid)) = normalize2DGrid grid"
  by (simp add: normalizePolyCube_idem normalize2DGrid_idem)

section \<open>Shape generator: the candidate scan\<close>

lemma candidate_step:
  "(\<lambda>(dx, dy, dz) (potentialPoints, potentialPointsSet).
        let nx = block_x block + dx;
            ny = block_y block + dy;
            nz = block_z block + dz;
            pointKey = \<lparr> block_x = nx, block_y = ny, block_z = nz \<rparr>
        in if nx \<ge> 0 \<and> nx < GRID_SIZE \<and>
              ny \<ge> 0 \<and> ny < GRID_SIZE \<and>
              nz \<ge> 0 \<and> nz < GRID_SIZE \<and>
              tempBlockMap pointKey = None \<and>
              pointKey \<notin> potentialPointsSet
           then (potentialPoints @ [pointKey], insert pointKey potentialPointsSet)
           else (potentialPoints, potentialPointsSet)) =
   (\<lambda>d st. if inGrid (moveBy block d) \<and> tempBlockMap (moveBy block d) = None \<and>
                moveBy block d \<notin> snd st
             then (fst st @ [moveBy block d], insert (moveBy block d) (snd st))
             else st)"
  by (auto simp: fun_eq_iff Let_def inGrid_def moveBy_def)

lemma inner_scan:
  assumes "fold (\<lambda>d st. if inGrid (moveBy b d) \<and> m (moveBy b d) = None \<and> moveBy b d \<notin> snd st
                          then (fst st @ [moveBy b d], insert (moveBy b d) (snd st))
                          else st) ds (pp, set pp) = (pp', S')"
  shows "S' = set pp' \<and>
         set pp' = set pp \<union> {p. \<exists>d \<in> set ds. p = moveBy b d \<and> inGrid p \<and> m p = None}"
  using assms
proof (induction ds arbitrary: pp)
  case Nil
  then show ?case by auto
next
  case (Cons d ds)
  show ?case
  proof (cases "inGrid (moveBy b d) \<and> m (moveBy b d) = None \<and> moveBy b d \<notin> set pp")
    case True
    with Cons.prems have "fold (\<lambda>d st. if inGrid (moveBy b d) \<and> m (moveBy b d) = None \<and> moveBy b d \<notin> snd st
                          then (fst st @ [moveBy b d], insert (moveBy b d) (snd st))
                          else st) ds (pp @ [moveBy b d], set (pp @ [moveBy b d])) = (pp', S')"
      by simp
    from Cons.IH[OF this] True show ?thesis by auto
  next
    case False
    with Cons.prems have "fold (\<lambda>d st. if inGrid (moveBy b d) \<and> m (moveBy b d) = None \<and> moveBy b d \<notin> snd st
                          then (fst st @ [moveBy b d], insert (moveBy b d) (snd st))
                          else st) ds (pp, set pp) = (pp', S')"
      by auto
    from Cons.IH[OF this] False show ?thesis by auto
  qed
qed

lemma outer_scan:
  assumes "fold (\<lambda>b. fold (\<lambda>d st. if inGrid (moveBy b d) \<and> m (moveBy b d) = None \<and> moveBy b d \<notin> snd st
                          then (fst st @ [moveBy b d], insert (moveBy b d) (snd st))
                          else st) ds) bs (pp, set pp) = (pp', S')"
  shows "S' = set pp' \<and>
         set pp' = set pp \<union> {p. \<exists>b \<in> set bs. \<exists>d \<in> set ds. p = moveBy b d \<and> inGrid p \<and> m p = None}"
  using assms
proof (induction bs arbitrary: pp)
  case Nil
  then show ?case by auto
next
  case (Cons b bs)
  obtain pp1 S1 where st: "fold (\<lambda>d st. if inGrid (moveBy b d) \<and> m (moveBy b d) = None \<and> moveBy b d \<notin> snd st
                          then (fst st @ [moveBy b d], insert (moveBy b d) (snd st))
                          else st) ds (pp, set pp) = (pp1, S1)"
    by (cases "fold (\<lambda>d st. if inGrid (moveBy b d) \<and> m (moveBy b d) = None \<and> moveBy b d \<notin> snd st
                          then (fst st @ [moveBy b d], insert (moveBy b d) (snd st))
                          else st) ds (pp, set pp)") auto
  note in1 = inner_scan[OF st]
  from Cons.prems st in1 have "fold (\<lambda>b. fold (\<lambda>d st. if inGrid (moveBy b d) \<and> m (moveBy b d) = None \<and> moveBy b d \<notin> snd st
                          then (fst st @ [moveBy b d], insert (moveBy b d) (snd st))
                          else st) ds) bs (pp1, set pp1) = (pp', S')"
    by simp
  from Cons.IH[OF this] in1 show ?case by auto
qed

lemma set_collectPotentialPoints:
  "set (collectPotentialPoints m bs) =
     {p. \<exists>b \<in> set bs. \<exists>d \<in> set neighbors. p = moveBy b d \<and> inGrid p \<and> m p = None}"
proof -
  obtain pp' S' where st: "fold (\<lambda>b. fold (\<lambda>d st. if inGrid (moveBy b d) \<and> m (moveBy b d) = None \<and> moveBy b d \<notin> snd st
                          then (fst st @ [moveBy b d], insert (moveBy b d) (snd st))
                          else st) neighbors) bs ([], set []) = (pp', S')"
    by (cases "fold (\<lambda>b. fold (\<lambda>d st. if inGrid (moveBy b d) \<and> m (moveBy b d) = None \<and> moveBy b d \<notin> snd st
                          then (fst st @ [moveBy b d], insert (moveBy b d) (snd st))
                          else st) neighbors) bs ([], set [])") auto
  then have "collectPotentialPoints m bs = pp'"
    unfolding collectPotentialPoints_def candidate_step by simp
  with outer_scan[OF st] show ?thesis by simp
qed

section \<open>Shape generator: the growth loop\<close>

declare growShape.simps [simp del]
declare regenLoop.simps [simp del]
declare regenLoop_repick.simps [simp del]

lemma adjOn_mono: "S \<subseteq> T \<Longrightarrow> adjOn S \<subseteq> adjOn T"
  by (auto simp: adjOn_def)

lemma adjacent_sym: "adjacent p q \<Longrightarrow> adjacent q p"
  by (auto simp: adjacent_def)

lemma sym_adjOn: "sym (adjOn S)"
  by (auto simp: adjOn_def sym_def adjacent_sym)

lemma adjacent_moveBy:
  "d \<in> set neighbors \<Longrightarrow> adjacent (cellOf b) (cellOf (moveBy b d))"
  by (auto simp: neighbors_def adjacent_def cellOf_def moveBy_def)

lemma inj_cellOf: "inj cellOf"
  by (auto simp: inj_def cellOf_def)

lemma elemAt_mem: "elemAt xs i = Some v \<Longrightarrow> v \<in> set xs"
proof -
  assume a: "elemAt xs i = Some v"
  then have "0 \<le> i" "i < int (length xs)" "v = xs ! nat i"
    by (auto simp: elemAt_def split: if_splits)
  then have "nat i < length xs" by linarith
  with \<open>v = xs ! nat i\<close> show ?thesis by simp
qed

lemma grown_single: "inGrid b \<Longrightarrow> grown [b]"
  by (simp add: grown_def)

lemma grown_extend:
  assumes g: "grown bs"
      and m: "\<forall>q. (m q \<noteq> None) = (q \<in> set bs)"
      and p: "p \<in> set (collectPotentialPoints m bs)"
  shows "grown (bs @ [p])"
proof -
  from p obtain b d where b: "b \<in> set bs" and d: "d \<in> set neighbors"
    and pb: "p = moveBy b d" and ig: "inGrid p" and free: "m p = None"
    unfolding set_collectPotentialPoints by blast
  have new: "p \<notin> set bs"
  proof
    assume "p \<in> set bs"
    with m have "m p \<noteq> None" by blast
    with free show False by simp
  qed
  let ?S = "cellOf ` set bs" and ?T = "cellOf ` set (bs @ [p])"
  have sub: "(adjOn ?S)\<^sup>* \<subseteq> (adjOn ?T)\<^sup>*"
    by (intro rtrancl_mono adjOn_mono) auto
  have hd: "hd (bs @ [p]) = hd bs" using g by (simp add: grown_def)
  have old: "(cellOf (hd bs), cellOf c) \<in> (adjOn ?T)\<^sup>*" if "c \<in> set bs" for c
    using g that sub by (auto simp: grown_def)
  have "(cellOf b, cellOf p) \<in> adjOn ?T"
    using b pb adjacent_moveBy[OF d, of b] by (auto simp: adjOn_def)
  with old[OF b] have "(cellOf (hd bs), cellOf p) \<in> (adjOn ?T)\<^sup>*"
    by (rule rtrancl_into_rtrancl)
  with old have "\<forall>c \<in> set (bs @ [p]). (cellOf (hd (bs @ [p])), cellOf c) \<in> (adjOn ?T)\<^sup>*"
    unfolding hd by auto
  then show ?thesis
    using g new ig unfolding grown_def by auto
qed

lemma growShape_grown:
  assumes "grown bs" "\<forall>q. (m q \<noteq> None) = (q \<in> set bs)"
      and "int (length bs) = count" "count \<le> targetBlocks"
      and "growShape rnd targetBlocks count i m bs = (bs', i')"
  shows "grown bs' \<and> int (length bs') \<le> targetBlocks"
  using assms
proof (induction rnd targetBlocks count i m bs arbitrary: bs' i' rule: growShape.induct)
  case (1 rnd targetBlocks count i m bs)
  show ?case
  proof (cases "count < targetBlocks")
    case False
    with "1.prems" show ?thesis by (simp add: growShape.simps)
  next
    case lt: True
    let ?pp = "collectPotentialPoints m bs"
    show ?thesis
    proof (cases "length ?pp = 0")
      case True
      with "1.prems" lt show ?thesis by (simp add: growShape.simps)
    next
      case False
      let ?sorted = "sort_key (\<lambda>b. - block_y b) ?pp"
      let ?pick = "rnd i (min (int (length ?sorted)) 5)"
      show ?thesis
      proof (cases "elemAt ?sorted ?pick")
        case None
        with "1.prems" lt False show ?thesis by (simp add: growShape.simps[of rnd targetBlocks count i m bs] Let_def)
      next
        case (Some nextBlock)
        then have "nextBlock \<in> set ?sorted"
          by (rule elemAt_mem)
        then have mem: "nextBlock \<in> set ?pp" by simp
        have g': "grown (bs @ [nextBlock])"
          by (rule grown_extend[OF "1.prems"(1,2) mem])
        have m': "\<forall>q. ((m(nextBlock \<mapsto> True)) q \<noteq> None) = (q \<in> set (bs @ [nextBlock]))"
          using "1.prems"(2) by auto
        have l': "int (length (bs @ [nextBlock])) = count + 1" using "1.prems"(3) by simp
        have c': "count + 1 \<le> targetBlocks" using lt by simp
        have r': "growShape rnd targetBlocks (count + 1) (i + 1) (m(nextBlock \<mapsto> True)) (bs @ [nextBlock]) = (bs', i')"
          using "1.prems"(5) lt False Some
          by (simp add: growShape.simps[of rnd targetBlocks count i m bs] Let_def)
        show ?thesis
          by (rule "1.IH"[OF lt refl False refl refl Some g' m' l' c' r'])
      qed
    qed
  qed
qed

section \<open>Shape generator: from the blocks to the normalised solid\<close>

lemma distinct_activeCells: "distinct (activeCells polyCube)"
  by (simp add: activeCells_def distinct_gridCells)

lemma cube_of_blocks:
  assumes "\<forall>b \<in> set bs. inGrid b"
  defines "cur \<equiv> fold (\<lambda>block polyCube.
                         set3 polyCube (block_x block) (block_y block) (block_z block) 1)
                      bs (replicate (nat GRID_SIZE)
                         (replicate (nat GRID_SIZE) (replicate (nat GRID_SIZE) (0::int))))"
  shows "extents3 cur 8 8 8" and "set (activeCells cur) = cellOf ` set bs"
proof -
  let ?g0 = "replicate 8 (replicate 8 (replicate 8 (0::int)))"
  have pos: "\<forall>b \<in> set bs. 0 \<le> block_x b \<and> 0 \<le> block_y b \<and> 0 \<le> block_z b"
    using assms(1) by (simp add: inGrid_def)
  have cur: "cur = fold (\<lambda>p g. set3 g (block_x p) (block_y p) (block_z p) 1) bs ?g0"
    by (simp add: cur_def)
  note P = paint3[OF pos, of 1 ?g0, folded cur]
  show ext: "extents3 cur 8 8 8"
    unfolding extents3_nth using P by simp
  have Q: "\<forall>x<8. \<forall>y<8. \<forall>z<8. cur ! x ! y ! z =
      (if \<exists>p \<in> set bs. block_x p = int x \<and> block_y p = int y \<and> block_z p = int z
       then 1 else ?g0 ! x ! y ! z)"
    using P by simp
  have cell: "cur ! x ! y ! z = (if (int x, int y, int z) \<in> cellOf ` set bs then 1 else 0)"
    if xyz: "x < 8" "y < 8" "z < 8" for x y z
  proof -
    have "?g0 ! x ! y ! z = 0" using xyz by simp
    with Q xyz have "cur ! x ! y ! z =
      (if \<exists>p \<in> set bs. block_x p = int x \<and> block_y p = int y \<and> block_z p = int z then 1 else 0)"
      by presburger
    also have "(\<exists>p \<in> set bs. block_x p = int x \<and> block_y p = int y \<and> block_z p = int z)
        \<longleftrightarrow> (int x, int y, int z) \<in> cellOf ` set bs"
      by (force simp: cellOf_def image_iff)
    finally show ?thesis .
  qed
  show "set (activeCells cur) = cellOf ` set bs"
  proof (rule set_eqI)
    fix q :: "int \<times> int \<times> int"
    obtain x y z where q: "q = (x, y, z)" by (cases q) auto
    show "q \<in> set (activeCells cur) \<longleftrightarrow> q \<in> cellOf ` set bs"
    proof (cases "0 \<le> x \<and> x < 8 \<and> 0 \<le> y \<and> y < 8 \<and> 0 \<le> z \<and> z < 8")
      case True
      then have n: "nat x < 8" "nat y < 8" "nat z < 8" by auto
      from cell[OF n] True show ?thesis
        unfolding q activeCells_iff isBlock_cube[OF ext] by simp
    next
      case False
      then have "q \<notin> set (activeCells cur)" unfolding q activeCells_iff by blast
      moreover have "q \<notin> cellOf ` set bs"
      proof
        assume "q \<in> cellOf ` set bs"
        then obtain b where "b \<in> set bs" "q = cellOf b" by blast
        with assms(1) False q show False by (auto simp: inGrid_def cellOf_def)
      qed
      ultimately show ?thesis by simp
    qed
  qed
qed

lemma length_activeCells_card: "length (activeCells polyCube) = card (set (activeCells polyCube))"
  by (simp add: distinct_card distinct_activeCells)

lemma normalized_count:
  "length (activeCells (normalizePolyCube polyCube)) = length (activeCells polyCube)"
proof -
  have "inj (\<lambda>p :: int \<times> int \<times> int. (fst p - a, fst (snd p) - b, snd (snd p) - c))" for a b c
    by (auto simp: inj_def prod_eq_iff)
  then have "card (set (activeCells (normalizePolyCube polyCube))) = card (set (activeCells polyCube))"
    unfolding normalized_cells by (intro card_image) (rule inj_on_subset, assumption, simp)
  then show ?thesis by (simp add: length_activeCells_card)
qed

lemma adjacent_shift:
  "adjacent (fst p - a, fst (snd p) - b, snd (snd p) - c) (fst q - a, fst (snd q) - b, snd (snd q) - c)
     = adjacent p q"
  by (simp add: adjacent_def)

lemma rtrancl_shift:
  assumes "(p, q) \<in> (adjOn S)\<^sup>*"
  shows "((fst p - a, fst (snd p) - b, snd (snd p) - c), (fst q - a, fst (snd q) - b, snd (snd q) - c))
           \<in> (adjOn ((\<lambda>p. (fst p - a, fst (snd p) - b, snd (snd p) - c)) ` S))\<^sup>*"
  using assms
proof (induction rule: rtrancl_induct)
  case base
  then show ?case by simp
next
  case (step y z)
  have "((fst y - a, fst (snd y) - b, snd (snd y) - c), (fst z - a, fst (snd z) - b, snd (snd z) - c))
           \<in> adjOn ((\<lambda>p. (fst p - a, fst (snd p) - b, snd (snd p) - c)) ` S)"
    using step.hyps(2) unfolding adjOn_def by (auto simp: adjacent_shift)
  with step.IH show ?case by (rule rtrancl_into_rtrancl)
qed

lemma rooted_connected:
  assumes "\<forall>p \<in> S. (r, p) \<in> (adjOn S)\<^sup>*" "p \<in> S" "q \<in> S"
  shows "(p, q) \<in> (adjOn S)\<^sup>*"
proof -
  have "sym ((adjOn S)\<^sup>*)" by (rule sym_rtrancl[OF sym_adjOn])
  with assms have "(p, r) \<in> (adjOn S)\<^sup>*" by (auto dest: symD)
  moreover have "(r, q) \<in> (adjOn S)\<^sup>*" using assms by blast
  ultimately show ?thesis by (rule rtrancl_trans)
qed

lemma grown_solid:
  assumes "grown bs"
  defines "cur \<equiv> fold (\<lambda>block polyCube.
                         set3 polyCube (block_x block) (block_y block) (block_z block) 1)
                      bs (replicate (nat GRID_SIZE)
                         (replicate (nat GRID_SIZE) (replicate (nat GRID_SIZE) (0::int))))"
  shows "length (activeCells (normalizePolyCube cur)) = length bs"
    and "sixConnected (normalizePolyCube cur)"
proof -
  have ig: "\<forall>b \<in> set bs. inGrid b" using assms(1) by (simp add: grown_def)
  have cells: "set (activeCells cur) = cellOf ` set bs"
    unfolding cur_def by (rule cube_of_blocks(2)[OF ig])
  have "length (activeCells (normalizePolyCube cur)) = length (activeCells cur)"
    by (rule normalized_count)
  also have "\<dots> = card (set (activeCells cur))"
    by (rule length_activeCells_card)
  also have "\<dots> = card (cellOf ` set bs)"
    by (simp only: cells)
  also have "\<dots> = card (set bs)"
    by (intro card_image) (rule inj_on_subset[OF inj_cellOf], simp)
  also have "\<dots> = length bs"
    using assms(1) by (simp add: grown_def distinct_card)
  finally show "length (activeCells (normalizePolyCube cur)) = length bs" .
  let ?C = "set (activeCells cur)"
  let ?a = "fold min (map fst (activeCells cur)) 8"
  let ?b = "fold min (map (fst \<circ> snd) (activeCells cur)) 8"
  let ?c = "fold min (map (snd \<circ> snd) (activeCells cur)) 8"
  let ?f = "\<lambda>p :: int \<times> int \<times> int. (fst p - ?a, fst (snd p) - ?b, snd (snd p) - ?c)"
  have root: "\<forall>p \<in> ?C. (cellOf (hd bs), p) \<in> (adjOn ?C)\<^sup>*"
    using assms(1) unfolding cells grown_def by blast
  have "\<forall>p \<in> ?f ` ?C. (?f (cellOf (hd bs)), p) \<in> (adjOn (?f ` ?C))\<^sup>*"
    using root rtrancl_shift[of "cellOf (hd bs)" _ ?C ?a ?b ?c] by blast
  then show "sixConnected (normalizePolyCube cur)"
    unfolding sixConnected_def normalized_cells
    by (intro ballI) (rule rooted_connected)
qed

section \<open>Shape generator: attempts and the retry loop\<close>

lemma valid_draw:
  assumes "validRandom rnd" "1 \<le> n" "n \<le> 6"
  shows "0 \<le> rnd i n" and "rnd i n < n"
  using assms by (auto simp: validRandom_def)

lemma start_inGrid:
  assumes "validRandom rnd"
  shows "inGrid \<lparr> block_x = rnd i (GRID_SIZE div 2), block_y = 0,
                  block_z = rnd j (GRID_SIZE div 2) \<rparr>"
proof -
  have "0 \<le> rnd i 4" "rnd i 4 < 4" "0 \<le> rnd j 4" "rnd j 4 < 4"
    using valid_draw[OF assms, of 4] by simp_all
  then show ?thesis by (simp add: inGrid_def)
qed

lemma attempt_result:
  assumes v: "validRandom rnd" and t: "1 \<le> targetBlocks"
      and r: "attemptShape rnd minBlocks targetBlocks i = (Some polyCube, i')"
  shows "minBlocks \<le> int (length (activeCells polyCube)) \<and>
         int (length (activeCells polyCube)) \<le> targetBlocks \<and>
         sixConnected polyCube"
proof -
  let ?s = "\<lparr> block_x = rnd i (GRID_SIZE div 2), block_y = 0,
                block_z = rnd (i + 1) (GRID_SIZE div 2) \<rparr>"
  obtain bs j where g: "growShape rnd targetBlocks 1 (i + 2) [?s \<mapsto> True] [?s] = (bs, j)"
    by (cases "growShape rnd targetBlocks 1 (i + 2) [?s \<mapsto> True] [?s]") auto
  have g0: "grown [?s]" by (rule grown_single[OF start_inGrid[OF v]])
  have m0: "\<forall>q. ([?s \<mapsto> True] q \<noteq> None) = (q \<in> set [?s])" by auto
  from growShape_grown[OF g0 m0 _ t g] have gb: "grown bs" and le: "int (length bs) \<le> targetBlocks"
    by simp_all
  let ?cur = "fold (\<lambda>block polyCube.
                         set3 polyCube (block_x block) (block_y block) (block_z block) 1)
                      bs (replicate (nat GRID_SIZE)
                         (replicate (nat GRID_SIZE) (replicate (nat GRID_SIZE) (0::int))))"
  from r g have ge: "minBlocks \<le> int (length bs)" and pc: "polyCube = normalizePolyCube ?cur"
    unfolding attemptShape_def Let_def by (auto split: if_splits)
  show ?thesis
    unfolding pc using grown_solid[OF gb] ge le by simp
qed

lemma regen_result:
  assumes "validRandom rnd" "1 \<le> targetBlocks"
      and "regenLoop rnd minBlocks targetBlocks attempts i = Some polyCube"
  shows "minBlocks \<le> int (length (activeCells polyCube)) \<and>
         int (length (activeCells polyCube)) \<le> targetBlocks \<and>
         sixConnected polyCube"
  using assms
proof (induction rnd minBlocks targetBlocks attempts i rule: regenLoop.induct)
  case (1 rnd minBlocks targetBlocks attempts i)
  from "1.prems"(3) have lt: "attempts < MAX_REGEN_ATTEMPTS"
    by (simp add: regenLoop.simps[of rnd minBlocks targetBlocks attempts i] split: if_splits)
  obtain res i' where a: "attemptShape rnd minBlocks targetBlocks i = (res, i')"
    by (cases "attemptShape rnd minBlocks targetBlocks i") auto
  show ?case
  proof (cases res)
    case None
    with "1.prems"(3) lt a
    have "regenLoop rnd minBlocks targetBlocks (attempts + 1) i' = Some polyCube"
      by (simp add: regenLoop.simps[of rnd minBlocks targetBlocks attempts i])
    from "1.IH"[OF lt a[symmetric] None "1.prems"(1,2) this] show ?thesis .
  next
    case (Some pc)
    with "1.prems"(3) lt a have "pc = polyCube"
      by (simp add: regenLoop.simps[of rnd minBlocks targetBlocks attempts i])
    with a Some attempt_result[OF "1.prems"(1,2)] show ?thesis by blast
  qed
qed

lemma target_in_range:
  assumes "validRandom rnd" "BLOCK_COUNTS_BY_LEVEL level = (minBlocks, maxBlocks)"
  shows "minBlocks \<le> rnd 0 (maxBlocks - minBlocks + 1) + minBlocks"
    and "rnd 0 (maxBlocks - minBlocks + 1) + minBlocks \<le> maxBlocks"
    and "4 \<le> minBlocks" and "maxBlocks \<le> 15"
proof -
  have pos: "1 \<le> maxBlocks - minBlocks + 1" "maxBlocks - minBlocks + 1 \<le> 6"
    and "4 \<le> minBlocks" and "maxBlocks \<le> 15"
    using assms(2) by (cases level; simp)+
  from valid_draw[OF assms(1) pos, of 0] \<open>4 \<le> minBlocks\<close> \<open>maxBlocks \<le> 15\<close>
  show "minBlocks \<le> rnd 0 (maxBlocks - minBlocks + 1) + minBlocks"
    "rnd 0 (maxBlocks - minBlocks + 1) + minBlocks \<le> maxBlocks"
    "4 \<le> minBlocks" "maxBlocks \<le> 15"
    by simp_all
qed

text \<open>A run: the source whose \<open>i\<close>-th draw for multiplier \<open>n\<close> is \<open>(i + 3) mod n\<close>, at level 1.\<close>

lemma example_source_valid: "validRandom (\<lambda>i n. (int i + 3) mod n)"
  by (simp add: validRandom_def)

lemma generate_example:
  "map_option (length \<circ> activeCells)
     (generateContiguousShape (\<lambda>i n. (int i + 3) mod n) LEVEL_1) = Some 7"
  by code_simp

section \<open>Shape generator: a growth never runs out of candidates\<close>

lemma ivt_up:
  fixes a b :: int
  assumes "a \<le> b" "f a" "\<not> f b"
  shows "\<exists>k. a \<le> k \<and> k < b \<and> f k \<and> \<not> f (k + 1)"
proof -
  let ?N = "{k \<in> {a..b}. \<not> f k}"
  have fin: "finite ?N" by (rule finite_subset[of _ "{a..b}"]) auto
  have ne: "?N \<noteq> {}" using assms by auto
  let ?k0 = "Min ?N"
  have k0: "?k0 \<in> ?N" using fin ne by (rule Min_in)
  then have "?k0 \<noteq> a" using assms(2) by auto
  with k0 have gt: "a < ?k0" by auto
  have "f (?k0 - 1)"
  proof (rule ccontr)
    assume "\<not> f (?k0 - 1)"
    with gt k0 have "?k0 - 1 \<in> ?N" by auto
    then have "?k0 \<le> ?k0 - 1" using fin by (intro Min_le)
    then show False by simp
  qed
  with gt k0 show ?thesis by (intro exI[of _ "?k0 - 1"]) auto
qed

lemma ivt_down:
  fixes a b :: int
  assumes "b \<le> a" "f a" "\<not> f b"
  shows "\<exists>k. b < k \<and> k \<le> a \<and> f k \<and> \<not> f (k - 1)"
proof -
  let ?N = "{k \<in> {b..a}. \<not> f k}"
  have fin: "finite ?N" by (rule finite_subset[of _ "{b..a}"]) auto
  have ne: "?N \<noteq> {}" using assms by auto
  let ?k0 = "Max ?N"
  have k0: "?k0 \<in> ?N" using fin ne by (rule Max_in)
  then have "?k0 \<noteq> a" using assms(2) by auto
  with k0 have lt: "?k0 < a" by auto
  have "f (?k0 + 1)"
  proof (rule ccontr)
    assume "\<not> f (?k0 + 1)"
    with lt k0 have "?k0 + 1 \<in> ?N" by auto
    then have "?k0 + 1 \<le> ?k0" using fin by (intro Max_ge)
    then show False by simp
  qed
  with lt k0 show ?thesis by (intro exI[of _ "?k0 + 1"]) auto
qed

text \<open>Along a grid line through a placed block that is not wholly placed, a candidate exists.\<close>

lemma line_candidate:
  fixes line :: "int \<Rightarrow> BlockCoordinates"
  assumes m: "\<forall>q. (m q \<noteq> None) = (q \<in> set bs)"
      and up: "\<And>k. moveBy (line k) dUp = line (k + 1)"
      and down: "\<And>k. moveBy (line k) dDown = line (k - 1)"
      and d: "dUp \<in> set neighbors" "dDown \<in> set neighbors"
      and grid: "\<And>k. 0 \<le> k \<Longrightarrow> k < 8 \<Longrightarrow> inGrid (line k)"
      and a: "0 \<le> a" "a < 8" "line a \<in> set bs"
      and b: "0 \<le> b" "b < 8" "line b \<notin> set bs"
  shows "collectPotentialPoints m bs \<noteq> []"
proof -
  have free: "m q = None" if "q \<notin> set bs" for q using m that by auto
  have "\<exists>p. p \<in> set (collectPotentialPoints m bs)"
  proof (cases "a \<le> b")
    case True
    from ivt_up[of a b "\<lambda>k. line k \<in> set bs", OF True a(3) b(3)]
    obtain k where k: "a \<le> k" "k < b" "line k \<in> set bs" "line (k + 1) \<notin> set bs" by blast
    have "inGrid (line (k + 1))" using k a b by (intro grid) auto
    then have "line (k + 1) \<in> set (collectPotentialPoints m bs)"
      unfolding set_collectPotentialPoints using k d free up[of k, symmetric] by blast
    then show ?thesis by blast
  next
    case False
    then have le: "b \<le> a" by simp
    from ivt_down[of b a "\<lambda>k. line k \<in> set bs", OF le a(3) b(3)]
    obtain k where k: "b < k" "k \<le> a" "line k \<in> set bs" "line (k - 1) \<notin> set bs" by blast
    have "inGrid (line (k - 1))" using k a b by (intro grid) auto
    then have "line (k - 1) \<in> set (collectPotentialPoints m bs)"
      unfolding set_collectPotentialPoints using k d free down[of k, symmetric] by blast
    then show ?thesis by blast
  qed
  then show ?thesis by auto
qed

lemma frontier_nonempty:
  assumes ne: "bs \<noteq> []" and ig: "\<forall>b \<in> set bs. inGrid b"
      and m: "\<forall>q. (m q \<noteq> None) = (q \<in> set bs)"
      and len: "length bs \<le> 14"
  shows "collectPotentialPoints m bs \<noteq> []"
proof -
  obtain r where r: "r \<in> set bs" using ne by (cases bs) auto
  define x0 y0 z0 where "x0 = block_x r" and "y0 = block_y r" and "z0 = block_z r"
  have r_eq: "r = \<lparr> block_x = x0, block_y = y0, block_z = z0 \<rparr>"
    by (simp add: x0_def y0_def z0_def)
  have rg: "0 \<le> x0" "x0 < 8" "0 \<le> y0" "y0 < 8" "0 \<le> z0" "z0 < 8"
    using ig r by (auto simp: inGrid_def x0_def y0_def z0_def)
  let ?lx = "\<lambda>k. \<lparr> block_x = k, block_y = y0, block_z = z0 \<rparr>"
  let ?ly = "\<lambda>k. \<lparr> block_x = x0, block_y = k, block_z = z0 \<rparr>"
  let ?L1 = "?lx ` {0..7}" and ?L2 = "?ly ` ({0..7} - {y0})"
  have "card ?L1 = card {0..(7::int)}" by (intro card_image) (auto simp: inj_on_def)
  moreover have "card ?L2 = card ({0..(7::int)} - {y0})" by (intro card_image) (auto simp: inj_on_def)
  moreover have "card ({0..(7::int)} - {y0}) = 7" using rg by simp
  moreover have "?L1 \<inter> ?L2 = {}" by auto
  ultimately have c15: "card (?L1 \<union> ?L2) = 15"
    by (subst card_Un_disjoint) auto
  have "\<not> ?L1 \<union> ?L2 \<subseteq> set bs"
  proof
    assume "?L1 \<union> ?L2 \<subseteq> set bs"
    then have "card (?L1 \<union> ?L2) \<le> card (set bs)" by (intro card_mono) auto
    also have "\<dots> \<le> length bs" by (rule card_length)
    finally show False using c15 len by simp
  qed
  then obtain c where c: "c \<in> ?L1 \<union> ?L2" "c \<notin> set bs" by blast
  then consider k where "0 \<le> k" "k < 8" "?lx k \<notin> set bs"
    | k where "0 \<le> k" "k < 8" "?ly k \<notin> set bs"
  proof (cases "c \<in> ?L1")
    case True
    then obtain k where "k \<in> {0..7}" "c = ?lx k" by blast
    with c(2) that(1)[of k] show ?thesis by auto
  next
    case False
    with c(1) obtain k where "k \<in> {0..7}" "c = ?ly k" by blast
    with c(2) that(2)[of k] show ?thesis by auto
  qed
  then show ?thesis
  proof cases
    case 1
    show ?thesis
    proof (rule line_candidate[where line = ?lx and dUp = "(1, 0, 0)" and dDown = "(-1, 0, 0)"
            and a = x0 and b = k, OF m])
      show "?lx x0 \<in> set bs" using r r_eq by simp
    qed (use rg 1 in \<open>auto simp: moveBy_def neighbors_def inGrid_def\<close>)
  next
    case 2
    show ?thesis
    proof (rule line_candidate[where line = ?ly and dUp = "(0, 1, 0)" and dDown = "(0, -1, 0)"
            and a = y0 and b = k, OF m])
      show "?ly y0 \<in> set bs" using r r_eq by simp
    qed (use rg 2 in \<open>auto simp: moveBy_def neighbors_def inGrid_def\<close>)
  qed
qed

lemma growShape_exact:
  assumes "validRandom rnd" "grown bs" "\<forall>q. (m q \<noteq> None) = (q \<in> set bs)"
      and "int (length bs) = count" "count \<le> targetBlocks" "targetBlocks \<le> 15"
      and "growShape rnd targetBlocks count i m bs = (bs', i')"
  shows "int (length bs') = targetBlocks"
  using assms
proof (induction rnd targetBlocks count i m bs arbitrary: bs' i' rule: growShape.induct)
  case (1 rnd targetBlocks count i m bs)
  show ?case
  proof (cases "count < targetBlocks")
    case False
    with "1.prems" show ?thesis by (simp add: growShape.simps)
  next
    case lt: True
    let ?pp = "collectPotentialPoints m bs"
    have "length bs \<le> 14" using lt "1.prems"(4,6) by linarith
    then have ne: "?pp \<noteq> []"
      using frontier_nonempty[OF _ _ "1.prems"(3)] "1.prems"(2) by (simp add: grown_def)
    then have False: "\<not> length ?pp = 0" by simp
    let ?sorted = "sort_key (\<lambda>b. - block_y b) ?pp"
    let ?n = "min (int (length ?sorted)) 5"
    let ?pick = "rnd i ?n"
    have npos: "1 \<le> ?n" "?n \<le> 6" using ne by (cases ?pp) auto
    from valid_draw[OF "1.prems"(1) npos, of i] have "0 \<le> ?pick" "?pick < int (length ?sorted)"
      by linarith+
    then obtain nextBlock where Some: "elemAt ?sorted ?pick = Some nextBlock"
      by (simp add: elemAt_def)
    then have "nextBlock \<in> set ?sorted" by (rule elemAt_mem)
    then have mem: "nextBlock \<in> set ?pp" by simp
    have g': "grown (bs @ [nextBlock])"
      by (rule grown_extend[OF "1.prems"(2,3) mem])
    have m': "\<forall>q. ((m(nextBlock \<mapsto> True)) q \<noteq> None) = (q \<in> set (bs @ [nextBlock]))"
      using "1.prems"(3) by auto
    have l': "int (length (bs @ [nextBlock])) = count + 1" using "1.prems"(4) by simp
    have c': "count + 1 \<le> targetBlocks" using lt by simp
    have r': "growShape rnd targetBlocks (count + 1) (i + 1) (m(nextBlock \<mapsto> True)) (bs @ [nextBlock]) = (bs', i')"
      using "1.prems"(7) lt False Some
      by (simp add: growShape.simps[of rnd targetBlocks count i m bs] Let_def)
    show ?thesis
      by (rule "1.IH"[OF lt refl False refl refl Some "1.prems"(1) g' m' l' c' "1.prems"(6) r'])
  qed
qed

lemma attempt_exact:
  assumes v: "validRandom rnd" and t: "1 \<le> targetBlocks" "targetBlocks \<le> 15"
      and r: "attemptShape rnd minBlocks targetBlocks i = (Some polyCube, i')"
  shows "int (length (activeCells polyCube)) = targetBlocks"
proof -
  let ?s = "\<lparr> block_x = rnd i (GRID_SIZE div 2), block_y = 0,
                block_z = rnd (i + 1) (GRID_SIZE div 2) \<rparr>"
  obtain bs j where g: "growShape rnd targetBlocks 1 (i + 2) [?s \<mapsto> True] [?s] = (bs, j)"
    by (cases "growShape rnd targetBlocks 1 (i + 2) [?s \<mapsto> True] [?s]") auto
  have g0: "grown [?s]" by (rule grown_single[OF start_inGrid[OF v]])
  have m0: "\<forall>q. ([?s \<mapsto> True] q \<noteq> None) = (q \<in> set [?s])" by auto
  from growShape_grown[OF g0 m0 _ t(1) g] have gb: "grown bs" by simp
  from growShape_exact[OF v g0 m0 _ t g] have len: "int (length bs) = targetBlocks" by simp
  let ?cur = "fold (\<lambda>block polyCube.
                         set3 polyCube (block_x block) (block_y block) (block_z block) 1)
                      bs (replicate (nat GRID_SIZE)
                         (replicate (nat GRID_SIZE) (replicate (nat GRID_SIZE) (0::int))))"
  from r g have pc: "polyCube = normalizePolyCube ?cur"
    unfolding attemptShape_def Let_def by (auto split: if_splits)
  show ?thesis
    unfolding pc using grown_solid(1)[OF gb] len by simp
qed

lemma regen_exact:
  assumes "validRandom rnd" "1 \<le> targetBlocks" "targetBlocks \<le> 15"
      and "regenLoop rnd minBlocks targetBlocks attempts i = Some polyCube"
  shows "int (length (activeCells polyCube)) = targetBlocks"
  using assms
proof (induction rnd minBlocks targetBlocks attempts i rule: regenLoop.induct)
  case (1 rnd minBlocks targetBlocks attempts i)
  from "1.prems"(4) have lt: "attempts < MAX_REGEN_ATTEMPTS"
    by (simp add: regenLoop.simps[of rnd minBlocks targetBlocks attempts i] split: if_splits)
  obtain res i' where a: "attemptShape rnd minBlocks targetBlocks i = (res, i')"
    by (cases "attemptShape rnd minBlocks targetBlocks i") auto
  show ?case
  proof (cases res)
    case None
    with "1.prems"(4) lt a
    have "regenLoop rnd minBlocks targetBlocks (attempts + 1) i' = Some polyCube"
      by (simp add: regenLoop.simps[of rnd minBlocks targetBlocks attempts i])
    from "1.IH"[OF lt a[symmetric] None "1.prems"(1,2,3) this] show ?thesis .
  next
    case (Some pc)
    with "1.prems"(4) lt a have "pc = polyCube"
      by (simp add: regenLoop.simps[of rnd minBlocks targetBlocks attempts i])
    with a Some attempt_exact[OF "1.prems"(1,2,3)] show ?thesis by blast
  qed
qed

section \<open>Shape generator: the first pass always returns\<close>

lemma dimscan:
  "fold (\<lambda>(x, y, z) s.
           if isBlock polyCube x y z
           then \<lparr> minX = min (minX s) x, maxX = max (maxX s) x,
                  minY = min (minY s) y, maxY = max (maxY s) y,
                  minZ = min (minZ s) z, maxZ = max (maxZ s) z \<rparr>
           else s) ps s0 =
     \<lparr> minX = fold min (map fst (filter (\<lambda>(x, y, z). isBlock polyCube x y z) ps)) (minX s0),
       maxX = fold max (map fst (filter (\<lambda>(x, y, z). isBlock polyCube x y z) ps)) (maxX s0),
       minY = fold min (map (fst \<circ> snd) (filter (\<lambda>(x, y, z). isBlock polyCube x y z) ps)) (minY s0),
       maxY = fold max (map (fst \<circ> snd) (filter (\<lambda>(x, y, z). isBlock polyCube x y z) ps)) (maxY s0),
       minZ = fold min (map (snd \<circ> snd) (filter (\<lambda>(x, y, z). isBlock polyCube x y z) ps)) (minZ s0),
       maxZ = fold max (map (snd \<circ> snd) (filter (\<lambda>(x, y, z). isBlock polyCube x y z) ps)) (maxZ s0) \<rparr>"
  by (induction ps arbitrary: s0) (auto simp: min.commute max.commute)

lemma maxs_attained:
  assumes "activeCells polyCube \<noteq> []"
  shows "fold max (map fst (activeCells polyCube)) (-1) = Max (fst ` set (activeCells polyCube))"
    and "fold max (map (fst \<circ> snd) (activeCells polyCube)) (-1)
           = Max ((fst \<circ> snd) ` set (activeCells polyCube))"
    and "fold max (map (snd \<circ> snd) (activeCells polyCube)) (-1)
           = Max ((snd \<circ> snd) ` set (activeCells polyCube))"
proof -
  have b: "\<forall>v \<in> set (map fst (activeCells polyCube)). -1 \<le> v"
       "\<forall>v \<in> set (map (fst \<circ> snd) (activeCells polyCube)). -1 \<le> v"
       "\<forall>v \<in> set (map (snd \<circ> snd) (activeCells polyCube)). -1 \<le> v"
    using activeCells_bounds[of _ polyCube] by fastforce+
  show "fold max (map fst (activeCells polyCube)) (-1) = Max (fst ` set (activeCells polyCube))"
    using fold_max_attained(2)[OF _ b(1)] assms by simp
  show "fold max (map (fst \<circ> snd) (activeCells polyCube)) (-1)
           = Max ((fst \<circ> snd) ` set (activeCells polyCube))"
    using fold_max_attained(2)[OF _ b(2)] assms by simp
  show "fold max (map (snd \<circ> snd) (activeCells polyCube)) (-1)
           = Max ((snd \<circ> snd) ` set (activeCells polyCube))"
    using fold_max_attained(2)[OF _ b(3)] assms by simp
qed

lemma span_in_grid:
  fixes f :: "int \<times> int \<times> int \<Rightarrow> int"
  assumes "activeCells polyCube \<noteq> []"
      and "\<And>p. p \<in> set (activeCells polyCube) \<Longrightarrow> 0 \<le> f p \<and> f p < 8"
  shows "0 \<le> Min (f ` set (activeCells polyCube))"
    and "Min (f ` set (activeCells polyCube)) \<le> Max (f ` set (activeCells polyCube))"
    and "Max (f ` set (activeCells polyCube)) < 8"
proof -
  let ?A = "f ` set (activeCells polyCube)"
  have fin: "finite ?A" "?A \<noteq> {}" using assms(1) by auto
  have "Min ?A \<in> ?A" "Max ?A \<in> ?A" using fin by (auto intro: Min_in Max_in)
  then show "0 \<le> Min ?A" "Max ?A < 8" using assms(2) by auto
  show "Min ?A \<le> Max ?A" using fin by (simp add: Min_le_iff)
qed

lemma calculateDimensions_fits:
  assumes "activeCells polyCube \<noteq> []"
  shows "1 \<le> width (calculateDimensions polyCube) \<and> width (calculateDimensions polyCube) \<le> 8 \<and>
         1 \<le> height (calculateDimensions polyCube) \<and> height (calculateDimensions polyCube) \<le> 8 \<and>
         1 \<le> depth (calculateDimensions polyCube) \<and> depth (calculateDimensions polyCube) \<le> 8"
proof -
  let ?C = "set (activeCells polyCube)"
  have b: "\<And>p. p \<in> ?C \<Longrightarrow> 0 \<le> fst p \<and> fst p < 8"
          "\<And>p. p \<in> ?C \<Longrightarrow> 0 \<le> (fst \<circ> snd) p \<and> (fst \<circ> snd) p < 8"
          "\<And>p. p \<in> ?C \<Longrightarrow> 0 \<le> (snd \<circ> snd) p \<and> (snd \<circ> snd) p < 8"
    using activeCells_bounds[of _ polyCube] by auto
  note sx = span_in_grid[where f = fst, OF assms b(1)]
  note sy = span_in_grid[where f = "fst \<circ> snd", OF assms b(2)]
  note sz = span_in_grid[where f = "snd \<circ> snd", OF assms b(3)]
  have d: "calculateDimensions polyCube =
      \<lparr> width = Max (fst ` ?C) - Min (fst ` ?C) + 1,
        height = Max ((fst \<circ> snd) ` ?C) - Min ((fst \<circ> snd) ` ?C) + 1,
        depth = Max ((snd \<circ> snd) ` ?C) - Min ((snd \<circ> snd) ` ?C) + 1 \<rparr>"
    unfolding calculateDimensions_def dimscan activeCells_def[symmetric]
    using sx by (simp add: Let_def maxs_attained[OF assms] mins_attained[OF assms])
  show ?thesis
    unfolding d using sx sy sz by simp
qed

lemma attempt_returns:
  assumes v: "validRandom rnd"
      and t: "1 \<le> minBlocks" "minBlocks \<le> targetBlocks" "targetBlocks \<le> 15"
  shows "\<exists>polyCube i'. attemptShape rnd minBlocks targetBlocks i = (Some polyCube, i')"
proof -
  let ?s = "\<lparr> block_x = rnd i (GRID_SIZE div 2), block_y = 0,
                block_z = rnd (i + 1) (GRID_SIZE div 2) \<rparr>"
  obtain bs j where g: "growShape rnd targetBlocks 1 (i + 2) [?s \<mapsto> True] [?s] = (bs, j)"
    by (cases "growShape rnd targetBlocks 1 (i + 2) [?s \<mapsto> True] [?s]") auto
  have t1: "1 \<le> targetBlocks" using t by simp
  have g0: "grown [?s]" by (rule grown_single[OF start_inGrid[OF v]])
  have m0: "\<forall>q. ([?s \<mapsto> True] q \<noteq> None) = (q \<in> set [?s])" by auto
  from growShape_grown[OF g0 m0 _ t1 g] have gb: "grown bs" by simp
  from growShape_exact[OF v g0 m0 _ t1 t(3) g] have len: "int (length bs) = targetBlocks" by simp
  let ?cur = "fold (\<lambda>block polyCube.
                         set3 polyCube (block_x block) (block_y block) (block_z block) 1)
                      bs (replicate (nat GRID_SIZE)
                         (replicate (nat GRID_SIZE) (replicate (nat GRID_SIZE) (0::int))))"
  have "length (activeCells (normalizePolyCube ?cur)) = length bs"
    by (rule grown_solid(1)[OF gb])
  then have "activeCells (normalizePolyCube ?cur) \<noteq> []" using len t by auto
  from calculateDimensions_fits[OF this] g len t
  have "attemptShape rnd minBlocks targetBlocks i = (Some (normalizePolyCube ?cur), j)"
    unfolding attemptShape_def Let_def by simp
  then show ?thesis by blast
qed

lemma first_pass_returns:
  assumes "validRandom rnd" "1 \<le> minBlocks" "minBlocks \<le> targetBlocks" "targetBlocks \<le> 15"
      and "attempts < MAX_REGEN_ATTEMPTS"
  shows "\<exists>i'. attemptShape rnd minBlocks targetBlocks i =
               (regenLoop rnd minBlocks targetBlocks attempts i, i') \<and>
              regenLoop rnd minBlocks targetBlocks attempts i \<noteq> None"
proof -
  from attempt_returns[OF assms(1-4), of i] obtain polyCube i'
    where "attemptShape rnd minBlocks targetBlocks i = (Some polyCube, i')" by blast
  with assms(5) show ?thesis
    by (simp add: regenLoop.simps[of rnd minBlocks targetBlocks attempts i])
qed

lemma generate_returns:
  assumes "validRandom rnd"
  shows "generateContiguousShape rnd level \<noteq> None"
proof -
  obtain minBlocks maxBlocks where b: "BLOCK_COUNTS_BY_LEVEL level = (minBlocks, maxBlocks)"
    by (cases "BLOCK_COUNTS_BY_LEVEL level") auto
  note tr = target_in_range[OF assms b]
  have "regenLoop rnd minBlocks (rnd 0 (maxBlocks - minBlocks + 1) + minBlocks) 0 1 \<noteq> None"
    using first_pass_returns[OF assms, of minBlocks _ 0 1] tr by (simp add: MAX_REGEN_ATTEMPTS_def)
  then show ?thesis using b by (simp add: generateContiguousShape_def)
qed

text \<open>
  Since the first pass always returns, the retry branch of the loop is never taken, and
  the generator returns what a generator that draws a target at the start of every
  pass returns, on every valid source.
\<close>

lemma repick_same:
  assumes "validRandom rnd"
  shows "generateContiguousShape_repick rnd level = generateContiguousShape rnd level"
proof -
  obtain minBlocks maxBlocks where b: "BLOCK_COUNTS_BY_LEVEL level = (minBlocks, maxBlocks)"
    by (cases "BLOCK_COUNTS_BY_LEVEL level") auto
  let ?t = "rnd 0 (maxBlocks - minBlocks + 1) + minBlocks"
  note tr = target_in_range[OF assms b]
  have "1 \<le> minBlocks" using tr by linarith
  from attempt_returns[OF assms this tr(1) _, of "Suc 0"] tr obtain polyCube i'
    where a: "attemptShape rnd minBlocks ?t (Suc 0) = (Some polyCube, i')" by force
  have "regenLoop rnd minBlocks ?t 0 (Suc 0) = Some polyCube"
    by (subst regenLoop.simps) (simp add: a MAX_REGEN_ATTEMPTS_def)
  moreover have "regenLoop_repick rnd minBlocks maxBlocks 0 0 = Some polyCube"
    by (subst regenLoop_repick.simps) (simp add: a MAX_REGEN_ATTEMPTS_def Let_def)
  ultimately show ?thesis
    using b by (simp add: generateContiguousShape_def generateContiguousShape_repick_def)
qed

section \<open>Shape generator: the claims\<close>

text \<open>
  Claim C2 (count bounds). For every level and every valid random source, a solid
  returned by \<open>generateContiguousShape\<close> has a number of occupied cells between the
  \<open>min\<close> and the \<open>max\<close> that \<open>BLOCK_COUNTS_BY_LEVEL\<close> gives for the level, inclusive.
\<close>

theorem generated_count_in_range:
  assumes "validRandom rnd"
      and "BLOCK_COUNTS_BY_LEVEL level = (minBlocks, maxBlocks)"
      and "generateContiguousShape rnd level = Some polyCube"
  shows "minBlocks \<le> int (length (activeCells polyCube)) \<and>
         int (length (activeCells polyCube)) \<le> maxBlocks"
proof -
  let ?t = "rnd 0 (maxBlocks - minBlocks + 1) + minBlocks"
  note tr = target_in_range[OF assms(1,2)]
  have "regenLoop rnd minBlocks ?t 0 1 = Some polyCube"
    using assms(2,3) by (simp add: generateContiguousShape_def)
  moreover have "1 \<le> ?t" using tr by linarith
  ultimately have "minBlocks \<le> int (length (activeCells polyCube)) \<and>
         int (length (activeCells polyCube)) \<le> ?t"
    using regen_result[OF assms(1)] by blast
  with tr(2) show ?thesis by linarith
qed

theorem generated_count_in_range_witness:
  "validRandom (\<lambda>i n. (int i + 3) mod n) \<and> BLOCK_COUNTS_BY_LEVEL LEVEL_1 = (4, 7) \<and>
   generateContiguousShape (\<lambda>i n. (int i + 3) mod n) LEVEL_1 \<noteq> None \<and>
   4 \<le> int (length (activeCells
                        (the (generateContiguousShape (\<lambda>i n. (int i + 3) mod n) LEVEL_1)))) \<and>
   int (length (activeCells
                  (the (generateContiguousShape (\<lambda>i n. (int i + 3) mod n) LEVEL_1)))) \<le> 7"
proof -
  have b: "BLOCK_COUNTS_BY_LEVEL LEVEL_1 = (4, 7)" by simp
  from generate_example
  obtain pc where g: "generateContiguousShape (\<lambda>i n. (int i + 3) mod n) LEVEL_1 = Some pc"
    by blast
  from generated_count_in_range[OF example_source_valid b g] example_source_valid g
  show ?thesis by simp
qed

text \<open>
  Claim C3 (connectivity). For every level and every valid random source, a solid
  returned by \<open>generateContiguousShape\<close> is six-connected: any two occupied cells are
  joined by a chain of occupied cells in which consecutive cells differ by exactly 1
  along exactly one axis.
\<close>

theorem generated_solid_connected:
  assumes "validRandom rnd"
      and "generateContiguousShape rnd level = Some polyCube"
  shows "sixConnected polyCube"
proof -
  obtain minBlocks maxBlocks where b: "BLOCK_COUNTS_BY_LEVEL level = (minBlocks, maxBlocks)"
    by (cases "BLOCK_COUNTS_BY_LEVEL level") auto
  let ?t = "rnd 0 (maxBlocks - minBlocks + 1) + minBlocks"
  note tr = target_in_range[OF assms(1) b]
  have "regenLoop rnd minBlocks ?t 0 1 = Some polyCube"
    using assms(2) b by (simp add: generateContiguousShape_def)
  moreover have "1 \<le> ?t" using tr by linarith
  ultimately show ?thesis
    using regen_result[OF assms(1)] by blast
qed

theorem generated_solid_connected_witness:
  "validRandom (\<lambda>i n. (int i + 3) mod n) \<and>
   generateContiguousShape (\<lambda>i n. (int i + 3) mod n) LEVEL_1 \<noteq> None \<and>
   sixConnected (the (generateContiguousShape (\<lambda>i n. (int i + 3) mod n) LEVEL_1))"
proof -
  from generate_example
  obtain pc where g: "generateContiguousShape (\<lambda>i n. (int i + 3) mod n) LEVEL_1 = Some pc"
    by blast
  from generated_solid_connected[OF example_source_valid g] example_source_valid g
  show ?thesis by simp
qed

lemma drawn_filter:
  "drawIsometricBlockFaces polyCube bx by' bz rotationX rotationY =
     filter (\<lambda>face. isNaturallyExposed polyCube bx by' bz face \<and> isFacingCamera face rotationX rotationY)
       UNIT_CUBE_FACES"
proof -
  have "(\<lambda>face drawn.
             if \<not> isNaturallyExposed polyCube bx by' bz face
             then drawn
             else if isFacingCamera face rotationX rotationY then drawn @ [face]
             else drawn) =
        (\<lambda>face acc. if isNaturallyExposed polyCube bx by' bz face \<and> isFacingCamera face rotationX rotationY
                      then acc @ [id face] else acc)"
    by (auto simp: fun_eq_iff)
  then show ?thesis
    unfolding drawIsometricBlockFaces_def
    by (simp add: fold_cond_append)
qed

text \<open>
  Claim C6 (occlusion). Let two occupied cells of the scanned grid be neighbours
  across a face: the second is the first moved by the normal of \<open>face\<close>, and \<open>back\<close>
  is the face with the opposite normal. Then, for every rotation pair, the neighbour
  test rejects \<open>face\<close> for the first voxel and \<open>back\<close> for the second, and neither
  is among the faces drawn for its voxel.
\<close>

theorem shared_face_never_drawn:
  assumes "(x, y, z) \<in> set (activeCells polyCube)"
      and "face \<in> set UNIT_CUBE_FACES"
      and "(x + pt_x (normal face), y + pt_y (normal face), z + pt_z (normal face))
             \<in> set (activeCells polyCube)"
      and "back \<in> set UNIT_CUBE_FACES"
      and "normal back = \<lparr> pt_x = - pt_x (normal face), pt_y = - pt_y (normal face),
                            pt_z = - pt_z (normal face) \<rparr>"
  shows "\<not> isNaturallyExposed polyCube x y z face \<and>
         face \<notin> set (drawIsometricBlockFaces polyCube x y z rotationX rotationY) \<and>
         \<not> isNaturallyExposed polyCube (x + pt_x (normal face)) (y + pt_y (normal face))
              (z + pt_z (normal face)) back \<and>
         back \<notin> set (drawIsometricBlockFaces polyCube (x + pt_x (normal face))
                        (y + pt_y (normal face)) (z + pt_z (normal face)) rotationX rotationY)"
  using assms
  by (simp add: drawn_filter activeCells_iff isNaturallyExposed_def Let_def)

theorem shared_face_never_drawn_witness:
  "(0, 0, 0) \<in> set (activeCells (set3 (set3 emptyPolyCube 0 0 0 1) 0 0 1 1)) \<and>
   UNIT_CUBE_FACES ! 2 \<in> set UNIT_CUBE_FACES \<and>
   (0 + pt_x (normal (UNIT_CUBE_FACES ! 2)), 0 + pt_y (normal (UNIT_CUBE_FACES ! 2)),
    0 + pt_z (normal (UNIT_CUBE_FACES ! 2))) \<in> set (activeCells (set3 (set3 emptyPolyCube 0 0 0 1) 0 0 1 1)) \<and>
   UNIT_CUBE_FACES ! 3 \<in> set UNIT_CUBE_FACES \<and>
   \<not> isNaturallyExposed (set3 (set3 emptyPolyCube 0 0 0 1) 0 0 1 1) 0 0 0 (UNIT_CUBE_FACES ! 2) \<and>
   UNIT_CUBE_FACES ! 2 \<notin> set (drawIsometricBlockFaces (set3 (set3 emptyPolyCube 0 0 0 1) 0 0 1 1) 0 0 0 (3 / 10) (6 / 5)) \<and>
   \<not> isNaturallyExposed (set3 (set3 emptyPolyCube 0 0 0 1) 0 0 1 1) 0 0 1 (UNIT_CUBE_FACES ! 3) \<and>
   UNIT_CUBE_FACES ! 3 \<notin> set (drawIsometricBlockFaces (set3 (set3 emptyPolyCube 0 0 0 1) 0 0 1 1) 0 0 1 (3 / 10) (6 / 5))"
proof -
  have cells: "activeCells (set3 (set3 emptyPolyCube 0 0 0 1) 0 0 1 1) = [(0, 0, 0), (0, 0, 1)]"
    by code_simp
  have h1: "(0, 0, 0) \<in> set (activeCells (set3 (set3 emptyPolyCube 0 0 0 1) 0 0 1 1))"
    by (simp add: cells)
  have h2: "UNIT_CUBE_FACES ! 2 \<in> set UNIT_CUBE_FACES"
    by (simp add: UNIT_CUBE_FACES_def)
  have h3: "(0 + pt_x (normal (UNIT_CUBE_FACES ! 2)), 0 + pt_y (normal (UNIT_CUBE_FACES ! 2)),
             0 + pt_z (normal (UNIT_CUBE_FACES ! 2))) \<in> set (activeCells (set3 (set3 emptyPolyCube 0 0 0 1) 0 0 1 1))"
    by (simp add: cells UNIT_CUBE_FACES_def)
  have h4: "UNIT_CUBE_FACES ! 3 \<in> set UNIT_CUBE_FACES"
    by (simp add: UNIT_CUBE_FACES_def)
  have h5: "normal (UNIT_CUBE_FACES ! 3) =
              \<lparr> pt_x = - pt_x (normal (UNIT_CUBE_FACES ! 2)),
                pt_y = - pt_y (normal (UNIT_CUBE_FACES ! 2)),
                pt_z = - pt_z (normal (UNIT_CUBE_FACES ! 2)) \<rparr>"
    by (simp add: UNIT_CUBE_FACES_def)
  have n2: "normal (UNIT_CUBE_FACES ! 2) = \<lparr> pt_x = 0, pt_y = 0, pt_z = 1 \<rparr>"
    by (simp add: UNIT_CUBE_FACES_def)
  from shared_face_never_drawn[OF h1 h2 h3 h4 h5, of "3 / 10" "6 / 5"] h1 h2 h3 h4
  show ?thesis by (simp add: n2)
qed

lemma facing_at_zero:
  "isFacingCamera face 0 0 \<longleftrightarrow> 0 < pt_x (normal face) + pt_y (normal face) + pt_z (normal face)"
proof -
  have "isFacingCamera face 0 0 \<longleftrightarrow>
        0 < (of_int (pt_x (normal face) + pt_y (normal face) + pt_z (normal face)) :: real) / 2"
    by (simp add: isFacingCamera_def rotateVector_def applyRotation_def VIEW_DIRECTION_VECTOR_def
        Let_def field_simps)
  also have "\<dots> \<longleftrightarrow>
      (0::real) < of_int (pt_x (normal face) + pt_y (normal face) + pt_z (normal face))"
    by simp
  also have "\<dots> \<longleftrightarrow> 0 < pt_x (normal face) + pt_y (normal face) + pt_z (normal face)"
    by (rule of_int_0_less_iff)
  finally show ?thesis .
qed

text \<open>
  Claim C7 (single voxel at rotation (0, 0)). When the scan finds exactly one
  occupied cell, the faces drawn for it at angles (0, 0) are exactly three, in table
  order: the top (+y), front (+z) and right (+x) faces. All six faces pass the
  neighbour test; the bottom, back and left faces fail the camera-facing test.
\<close>

theorem single_voxel_three_faces:
  assumes "activeCells polyCube = [(x, y, z)]"
  shows "drawIsometricBlockFaces polyCube x y z 0 0 =
           [UNIT_CUBE_FACES ! 0, UNIT_CUBE_FACES ! 2, UNIT_CUBE_FACES ! 4] \<and>
         normal (UNIT_CUBE_FACES ! 0) = \<lparr> pt_x = 0, pt_y = 1, pt_z = 0 \<rparr> \<and>
         normal (UNIT_CUBE_FACES ! 2) = \<lparr> pt_x = 0, pt_y = 0, pt_z = 1 \<rparr> \<and>
         normal (UNIT_CUBE_FACES ! 4) = \<lparr> pt_x = 1, pt_y = 0, pt_z = 0 \<rparr> \<and>
         list_all (isNaturallyExposed polyCube x y z) UNIT_CUBE_FACES \<and>
         \<not> isFacingCamera (UNIT_CUBE_FACES ! 1) 0 0 \<and>
         \<not> isFacingCamera (UNIT_CUBE_FACES ! 3) 0 0 \<and>
         \<not> isFacingCamera (UNIT_CUBE_FACES ! 5) 0 0"
proof -
  have only: "\<And>a b c. (a, b, c) \<in> set (activeCells polyCube) \<longleftrightarrow> (a, b, c) = (x, y, z)"
    using assms by simp
  have inr: "0 \<le> x \<and> x < 8 \<and> 0 \<le> y \<and> y < 8 \<and> 0 \<le> z \<and> z < 8"
    using only[of x y z] by (simp add: activeCells_iff)
  have exposed: "isNaturallyExposed polyCube x y z face" if "face \<in> set UNIT_CUBE_FACES" for face
  proof -
    let ?n = "(x + pt_x (normal face), y + pt_y (normal face), z + pt_z (normal face))"
    have "?n \<noteq> (x, y, z)" using that by (auto simp: UNIT_CUBE_FACES_def)
    then have "?n \<notin> set (activeCells polyCube)" using only by blast
    then show ?thesis
      unfolding isNaturallyExposed_def Let_def activeCells_iff by auto
  qed
  then have all: "list_all (isNaturallyExposed polyCube x y z) UNIT_CUBE_FACES"
    by (simp add: list_all_iff)
  have "drawIsometricBlockFaces polyCube x y z 0 0 = filter (\<lambda>face. isFacingCamera face 0 0) UNIT_CUBE_FACES"
    unfolding drawn_filter using exposed by (auto intro: filter_cong)
  also have "\<dots> = [UNIT_CUBE_FACES ! 0, UNIT_CUBE_FACES ! 2, UNIT_CUBE_FACES ! 4]"
    by (simp add: facing_at_zero UNIT_CUBE_FACES_def)
  finally show ?thesis using all
    by (simp add: facing_at_zero) (simp add: UNIT_CUBE_FACES_def)
qed

theorem single_voxel_three_faces_witness:
  "activeCells (set3 emptyPolyCube 0 0 0 1) = [(0, 0, 0)] \<and>
   drawIsometricBlockFaces (set3 emptyPolyCube 0 0 0 1) 0 0 0 0 0 =
     [UNIT_CUBE_FACES ! 0, UNIT_CUBE_FACES ! 2, UNIT_CUBE_FACES ! 4] \<and>
   length (drawIsometricBlockFaces (set3 emptyPolyCube 0 0 0 1) 0 0 0 0 0) = 3 \<and>
   list_all (isNaturallyExposed (set3 emptyPolyCube 0 0 0 1) 0 0 0) UNIT_CUBE_FACES"
proof -
  have h: "activeCells (set3 emptyPolyCube 0 0 0 1) = [(0, 0, 0)]"
    by code_simp
  from single_voxel_three_faces[OF h] h show ?thesis by simp
qed

end
